theory Spec2Isabelle
  imports Main "HOL-Library.Sublist"
begin

section \<open>The MQTT hub: message queue and application lifecycle\<close>

text \<open>
  A shallow embedding of \<^verbatim>\<open>src/mqtt/MessageQueue.js\<close> and of the lifecycle methods of
  \<^verbatim>\<open>src/app.js\<close>. Methods of the class \<^verbatim>\<open>MessageQueue\<close> carry the prefix \<open>mq_\<close>,
  methods of the class \<^verbatim>\<open>MQTTHub\<close> the prefix \<open>hub_\<close>, since both classes have a
  \<^verbatim>\<open>start\<close> and a \<^verbatim>\<open>stop\<close>.
\<close>

subsection \<open>Messages\<close>

text \<open>
  A \<^verbatim>\<open>Message\<close> object has the four properties the queue reads and writes. A JavaScript
  property that holds \<^verbatim>\<open>undefined\<close> is \<open>None\<close>.
\<close>

record message =
  mqttTopic :: string
  mqttMessage :: string
  qos :: "nat option"
  retain :: "bool option"

text \<open>
  Modelled from the spec: the constructor of \<^verbatim>\<open>./Message\<close> (the file is not part of the
  sources at hand). The spec's data model gives a Message a topic, a payload, a qos
  ``defaulted if absent'' and a retain flag; the birth message's qos 1 is called elevated,
  so the default is 0. The property names are the ones \<^verbatim>\<open>MessageQueue.js\<close> uses.
\<close>

definition Message_new :: "string \<Rightarrow> string \<Rightarrow> nat option \<Rightarrow> bool option \<Rightarrow> message" where
  "Message_new topic payload q r =
     \<lparr>mqttTopic = topic, mqttMessage = payload,
      qos = Some (case q of None \<Rightarrow> 0 | Some v \<Rightarrow> v), retain = r\<rparr>"

text \<open>The \<^verbatim>\<open>opt\<close> argument of \<^verbatim>\<open>add\<close>: an object that may lack either property.\<close>

record options =
  opt_qos :: "nat option"
  opt_retain :: "bool option"

subsection \<open>The state of a queue and of its MQTT client\<close>

text \<open>
  Message objects are shared between the array \<^verbatim>\<open>queue\<close> and the Map \<^verbatim>\<open>messages\<close>, and
  \<^verbatim>\<open>add\<close> mutates them in place, so objects live in a store: an address is an index into
  \<open>heap\<close>, and \<^verbatim>\<open>new Message\<close> appends to it.

  A call of the async method \<^verbatim>\<open>process\<close> runs until its first \<^verbatim>\<open>await\<close> and is then
  suspended until the awaited promise settles; \<open>suspended\<close> lists the activations of
  \<^verbatim>\<open>process\<close> that wait, each with what it waits for.

  The client is the collaborator \<^verbatim>\<open>mqttClient\<close>: \<open>registered\<close> is what
  \<^verbatim>\<open>isRegistered()\<close> answers, \<open>published\<close> lists the arguments of the calls of
  \<^verbatim>\<open>publish\<close> (as they were at the call), \<open>delivered\<close> those whose promise resolved,
  and \<open>onUnRegistered\<close> lists the callbacks subscribed to its unregistered notification.
  The one callback the sources subscribe is the constructor's \<^verbatim>\<open>() => this.clear()\<close>.
\<close>

type_synonym addr = nat

datatype outcome = Resolved | Rejected

datatype pending = AwaitSend message | AwaitNext

datatype callback = QueueClear

record state =
  heap :: "message list"
  queue :: "addr list"
  messages :: "string \<rightharpoonup> addr"
  running :: bool
  processing :: bool
  suspended :: "pending list"
  registered :: bool
  published :: "message list"
  delivered :: "message list"
  onUnRegistered :: "callback list"

text \<open>\<^verbatim>\<open>this.mqttClient.onUnRegistered.subscribe(f)\<close>.\<close>

definition subscribe :: "callback \<Rightarrow> state \<Rightarrow> state" where
  "subscribe f s = s\<lparr>onUnRegistered := onUnRegistered s @ [f]\<rparr>"

text \<open>
  The constructor, for a new client that answers \<open>reg\<close> to \<^verbatim>\<open>isRegistered()\<close>: it
  sets the four properties of the queue and subscribes \<^verbatim>\<open>clear\<close> to the client's
  unregistered notification.
\<close>

definition mq_constructor :: "bool \<Rightarrow> state" where
  "mq_constructor reg =
     subscribe QueueClear
       \<lparr>heap = [], queue = [], messages = Map.empty, running = True, processing = False,
        suspended = [], registered = reg, published = [], delivered = [], onUnRegistered = []\<rparr>"

subsection \<open>The methods of MessageQueue\<close>

function mq_getNextMessage :: "state \<Rightarrow> addr option \<times> state" where
  "mq_getNextMessage s =
     (case queue s of
        [] \<Rightarrow> (None, s)
      | a # q \<Rightarrow>
          if messages s (mqttTopic (heap s ! a)) \<noteq> None then (Some a, s\<lparr>queue := q\<rparr>)
          else mq_getNextMessage (s\<lparr>queue := q\<rparr>))"
  by pat_completeness auto
termination
  by (relation "measure (\<lambda>s. length (queue s))") auto

declare mq_getNextMessage.simps [simp del]

text \<open>\<^verbatim>\<open>send\<close> calls \<^verbatim>\<open>publish\<close>; the caller then waits for the outcome.\<close>

definition mq_send :: "addr \<Rightarrow> state \<Rightarrow> state" where
  "mq_send a s = s\<lparr>published := published s @ [heap s ! a]\<rparr>"

text \<open>
  \<^verbatim>\<open>next\<close>, up to its \<^verbatim>\<open>await\<close>: the result says what the caller is left waiting for.
\<close>

definition mq_next :: "state \<Rightarrow> pending \<times> state" where
  "mq_next s =
     (case mq_getNextMessage s of
        (None, s1) \<Rightarrow> (AwaitNext, s1)
      | (Some a, s1) \<Rightarrow>
          (AwaitSend (heap s1 ! a),
           mq_send a (s1\<lparr>messages := (messages s1)(mqttTopic (heap s1 ! a) := None)\<rparr>)))"

text \<open>
  The \<^verbatim>\<open>while\<close> loop of \<^verbatim>\<open>process\<close> from the test of its condition to the next
  \<^verbatim>\<open>await\<close>, or to the end of the method.
\<close>

definition mq_loop :: "state \<Rightarrow> state" where
  "mq_loop s =
     (if running s \<and> registered s \<and> queue s \<noteq> [] then
        (case mq_next s of (w, s1) \<Rightarrow> s1\<lparr>suspended := suspended s1 @ [w]\<rparr>)
      else s\<lparr>processing := False\<rparr>)"

definition mq_process :: "state \<Rightarrow> state" where
  "mq_process s = (if processing s then s else mq_loop (s\<lparr>processing := True\<rparr>))"

text \<open>
  The awaited promise of the oldest suspended activation settles. A rejection is caught and
  logged in \<^verbatim>\<open>send\<close>; either way the loop goes on with its condition (\<^verbatim>\<open>DELAY\<close> is 0).
\<close>

fun acknowledged :: "pending \<Rightarrow> outcome \<Rightarrow> message list" where
  "acknowledged (AwaitSend m) Resolved = [m]"
| "acknowledged (AwaitSend m) Rejected = []"
| "acknowledged AwaitNext out = []"

definition mq_settle :: "outcome \<Rightarrow> state \<Rightarrow> state" where
  "mq_settle out s =
     (case suspended s of
        [] \<Rightarrow> s
      | w # ws \<Rightarrow> mq_loop (s\<lparr>suspended := ws, delivered := delivered s @ acknowledged w out\<rparr>))"

text \<open>
  \<^verbatim>\<open>add(topic, payload, opt, process)\<close>: an argument left out is \<open>None\<close>, and
  \<^verbatim>\<open>opt || {}\<close> is an object without properties then.
\<close>

fun opt_or_empty :: "options option \<Rightarrow> options" where
  "opt_or_empty None = \<lparr>opt_qos = None, opt_retain = None\<rparr>"
| "opt_or_empty (Some x) = x"

definition mq_add :: "string \<Rightarrow> string \<Rightarrow> options option \<Rightarrow> bool option \<Rightarrow> state \<Rightarrow> state" where
  "mq_add topic payload opt proc s =
     (if registered s \<and> topic \<noteq> [] then
        let opt = opt_or_empty opt;
            s1 = (case messages s topic of
                    None \<Rightarrow>
                      s\<lparr>heap := heap s @ [Message_new topic payload (opt_qos opt) (opt_retain opt)],
                        messages := (messages s)(topic \<mapsto> length (heap s)),
                        queue := queue s @ [length (heap s)]\<rparr>
                  | Some a \<Rightarrow>
                      s\<lparr>heap := (heap s)[a := (heap s ! a)\<lparr>mqttMessage := payload,
                                      qos := opt_qos opt, retain := opt_retain opt\<rparr>]\<rparr>)
        in if proc \<noteq> Some False then mq_process s1 else s1
      else s)"

definition mq_get :: "string \<Rightarrow> state \<Rightarrow> message option" where
  "mq_get topic s = map_option (\<lambda>a. heap s ! a) (messages s topic)"

definition mq_remove :: "string \<Rightarrow> state \<Rightarrow> state" where
  "mq_remove topic s = s\<lparr>messages := (messages s)(topic := None)\<rparr>"

definition mq_start :: "state \<Rightarrow> state" where
  "mq_start s = mq_process (s\<lparr>running := True\<rparr>)"

definition mq_stop :: "state \<Rightarrow> state" where
  "mq_stop s = s\<lparr>running := False\<rparr>"

definition mq_clear :: "state \<Rightarrow> state" where
  "mq_clear s = s\<lparr>queue := [], messages := Map.empty\<rparr>"

definition mq_destroy :: "state \<Rightarrow> state" where
  "mq_destroy s = mq_clear (mq_stop s)"

subsection \<open>Calls from outside and the event loop\<close>

text \<open>
  Between two awaits of \<^verbatim>\<open>process\<close> any other method may be called. An event is one
  such call, the settling of an awaited promise, or a change of the client's registration.

  Modelled from the spec: the client (\<^verbatim>\<open>./MQTTClient\<close> is not part of the sources at
  hand) has a subscribable ``unregistered'' notification, sent when the registration with
  the broker is revoked: \<^verbatim>\<open>isRegistered()\<close> is false from then on, and the callbacks
  subscribed to the notification run in the order of their subscription.
\<close>

fun run_callback :: "state \<Rightarrow> callback \<Rightarrow> state" where
  "run_callback s QueueClear = mq_clear s"

definition client_registered :: "state \<Rightarrow> state" where
  "client_registered s = s\<lparr>registered := True\<rparr>"

definition client_unregistered :: "state \<Rightarrow> state" where
  "client_unregistered s = foldl run_callback (s\<lparr>registered := False\<rparr>) (onUnRegistered s)"

datatype event =
    Add string string "options option" "bool option"
  | Get string
  | Remove string
  | Process
  | Start
  | Stop
  | Clear
  | Destroy
  | Settle outcome
  | ClientRegistered
  | ClientUnRegistered

fun step :: "state \<Rightarrow> event \<Rightarrow> state" where
  "step s (Add topic payload opt proc) = mq_add topic payload opt proc s"
| "step s (Get topic) = s"
| "step s (Remove topic) = mq_remove topic s"
| "step s Process = mq_process s"
| "step s Start = mq_start s"
| "step s Stop = mq_stop s"
| "step s Clear = mq_clear s"
| "step s Destroy = mq_destroy s"
| "step s (Settle out) = mq_settle out s"
| "step s ClientRegistered = client_registered s"
| "step s ClientUnRegistered = client_unregistered s"

definition exec :: "event list \<Rightarrow> state \<Rightarrow> state" where
  "exec evs s = foldl step s evs"

subsection \<open>Running a drain to its end\<close>

text \<open>
  The event loop resumes a suspended activation each time its promise settles. \<open>run\<close>
  does so until no activation is left, with no other call in between; \<open>pub\<close> decides the
  outcome of each publish. \<open>mq_drain\<close> is a call of \<^verbatim>\<open>process\<close> followed to its end.
\<close>

function run :: "(message \<Rightarrow> outcome) \<Rightarrow> state \<Rightarrow> state" where
  "run pub s =
     (case suspended s of
        [] \<Rightarrow> s
      | AwaitNext # ws \<Rightarrow> run pub (mq_settle Resolved s)
      | AwaitSend m # ws \<Rightarrow> run pub (mq_settle (pub m) s))"
  by pat_completeness auto
termination
proof (relation "measure (\<lambda>(pub, s). 2 * length (queue s) + length (suspended s))")
  have shift: "length (queue (snd (mq_getNextMessage s))) < length (queue s) \<and>
      suspended (snd (mq_getNextMessage s)) = suspended s" if "queue s \<noteq> []" for s
    using that
  proof (induction s rule: mq_getNextMessage.induct)
    case (1 s)
    then obtain a q where q: "queue s = a # q" by (cases "queue s") auto
    show ?case
    proof (cases "messages s (mqttTopic (heap s ! a)) \<noteq> None")
      case True
      with q show ?thesis by (auto simp add: mq_getNextMessage.simps [of s])
    next
      case False
      with q have eq: "mq_getNextMessage s = mq_getNextMessage (s\<lparr>queue := q\<rparr>)"
        by (simp add: mq_getNextMessage.simps [of s])
      show ?thesis
      proof (cases q)
        case Nil
        with q show ?thesis
          by (simp add: eq mq_getNextMessage.simps [of "s\<lparr>queue := []\<rparr>"])
      next
        case (Cons b q')
        with "1.IH" [OF q False] q show ?thesis by (simp add: eq)
      qed
    qed
  qed
  have loop: "2 * length (queue (mq_loop s)) + length (suspended (mq_loop s))
      \<le> 2 * length (queue s) + length (suspended s)" for s
    using shift [of s] by (auto simp add: mq_loop_def mq_next_def mq_send_def split: prod.splits option.splits)
  have settle: "2 * length (queue (mq_settle out s)) + length (suspended (mq_settle out s))
      < 2 * length (queue s) + length (suspended s)" if "suspended s = w # ws" for out s w ws
    using loop [of "s\<lparr>suspended := ws, delivered := delivered s @ acknowledged w out\<rparr>"] that
    by (simp add: mq_settle_def)
  show "wf (measure (\<lambda>(pub, s). 2 * length (queue s) + length (suspended s)))" by simp
  show "((pub, mq_settle Resolved s), pub, s)
      \<in> measure (\<lambda>(pub, s). 2 * length (queue s) + length (suspended s))"
    if "suspended s = w # ws" for pub s w ws
    using settle [OF that, of Resolved] by simp
  show "((pub, mq_settle (pub m) s), pub, s)
      \<in> measure (\<lambda>(pub, s). 2 * length (queue s) + length (suspended s))"
    if "suspended s = w # ws" for pub s w ws m
    using settle [OF that, of "pub m"] by simp
qed

declare run.simps [simp del]

definition mq_drain :: "(message \<Rightarrow> outcome) \<Rightarrow> state \<Rightarrow> state" where
  "mq_drain pub s = run pub (mq_process s)"

subsection \<open>String.prototype.replace with a string pattern\<close>

text \<open>
  \<^verbatim>\<open>s.replace(pat, rep)\<close> replaces the first occurrence of \<^verbatim>\<open>pat\<close> in \<^verbatim>\<open>s\<close>. In the
  replacement text \<^verbatim>\<open>$$\<close> stands for a dollar sign, \<^verbatim>\<open>$&\<close> for the matched text, a
  dollar sign with a backquote for the text before the match, a dollar sign with an
  apostrophe for the text after it; there are no capture groups, so any other dollar sign
  stands for itself.
\<close>

fun GetSubstitution :: "string \<Rightarrow> string \<Rightarrow> string \<Rightarrow> string \<Rightarrow> string" where
  "GetSubstitution matched before after [] = []"
| "GetSubstitution matched before after [c] = [c]"
| "GetSubstitution matched before after (c # d # cs) =
     (if c = CHR ''$'' \<and> d = CHR ''$'' then CHR ''$'' # GetSubstitution matched before after cs
      else if c = CHR ''$'' \<and> d = CHR ''&'' then matched @ GetSubstitution matched before after cs
      else if c = CHR ''$'' \<and> d = CHR 0x60 then before @ GetSubstitution matched before after cs
      else if c = CHR ''$'' \<and> d = CHR 0x27 then after @ GetSubstitution matched before after cs
      else c # GetSubstitution matched before after (d # cs))"

fun replace_from :: "string \<Rightarrow> string \<Rightarrow> string \<Rightarrow> string \<Rightarrow> string" where
  "replace_from before s pat rep =
     (if prefix pat s then
        before @ GetSubstitution pat before (drop (length pat) s) rep @ drop (length pat) s
      else (case s of [] \<Rightarrow> before | c # cs \<Rightarrow> replace_from (before @ [c]) cs pat rep))"

definition replace :: "string \<Rightarrow> string \<Rightarrow> string \<Rightarrow> string" where
  "replace s pat rep = replace_from [] s pat rep"

subsection \<open>The application: constants, state and collaborators\<close>

definition BIRTH_TOPIC :: string where
  "BIRTH_TOPIC = ''{deviceId}/hub/status''"

definition BIRTH_MESSAGE :: string where
  "BIRTH_MESSAGE = ''online''"

definition WILL_TOPIC :: string where
  "WILL_TOPIC = ''{deviceId}/hub/status''"

definition WILL_MESSAGE :: string where
  "WILL_MESSAGE = ''offline''"

text \<open>
  The properties of \<^verbatim>\<open>this.settings\<close> that the lifecycle reads; \<open>None\<close> is a property
  that is not set. \<^verbatim>\<open>onInit\<close> and \<^verbatim>\<open>settingsChanged\<close> assign an object to
  \<^verbatim>\<open>this.settings\<close>, and \<^verbatim>\<open>onInit\<close> assigns \<^verbatim>\<open>this.mqttClient\<close> and
  \<^verbatim>\<open>this.messageQueue\<close> before it calls \<^verbatim>\<open>start\<close>, so both are present here.
\<close>

record settings =
  deviceId :: "string option"
  settings_protocol :: "string option"
  broadcastDevices :: "bool option"
  broadcastSystemState :: "bool option"

text \<open>
  The dispatch components are collaborators whose code is not at hand: the command handler
  and the three dispatchers. The application holds each of them or not; what it does to
  them, and to the client, is recorded in \<open>trace\<close> in the order of the calls.
  \<open>messageQueue\<close> is the queue together with the client, which the application and the
  queue share.
\<close>

datatype component = CommandHandler | HomieDispatcher | HomeAssistantDispatcher | SystemStateDispatcher

datatype action =
    Connect
  | Disconnect
  | Publish message
  | Create component
  | Register component
  | Destroy component
  | SetBroadcast component bool

datatype error = TypeError | RegisterFailed

record hub =
  settings :: settings
  protocol :: "string option"
  commandHandler :: bool
  homieDispatcher :: bool
  homeAssistantDispatcher :: bool
  systemStateDispatcher :: bool
  messageQueue :: state
  trace :: "action list"

text \<open>JavaScript truthiness of a property that holds a string or nothing.\<close>

fun truthy :: "string option \<Rightarrow> bool" where
  "truthy None = False"
| "truthy (Some x) = (x \<noteq> [])"

text \<open>A call of \<^verbatim>\<open>this.mqttClient.publish\<close> by the application itself.\<close>

definition client_publish :: "message \<Rightarrow> hub \<Rightarrow> hub" where
  "client_publish m h =
     h\<lparr>messageQueue := (messageQueue h)\<lparr>published := published (messageQueue h) @ [m]\<rparr>,
       trace := trace h @ [Publish m]\<rparr>"

definition call :: "action \<Rightarrow> hub \<Rightarrow> hub" where
  "call a h = h\<lparr>trace := trace h @ [a]\<rparr>"

text \<open>
  Modelled from the spec: \<^verbatim>\<open>connect()\<close> and \<^verbatim>\<open>disconnect()\<close> of the client. The spec
  has the publisher registered with the broker once \<^verbatim>\<open>connect\<close> has succeeded, and has
  the tearing down of the connection revoke the registration and send the unregistered
  notification. \<open>conn\<close> is the outcome of the promise \<^verbatim>\<open>connect()\<close> returns.
\<close>

definition client_connect :: "outcome \<Rightarrow> hub \<Rightarrow> hub" where
  "client_connect conn h =
     (case conn of
        Rejected \<Rightarrow> call Connect h
      | Resolved \<Rightarrow> (call Connect h)\<lparr>messageQueue := client_registered (messageQueue h)\<rparr>)"

definition client_disconnect :: "hub \<Rightarrow> hub" where
  "client_disconnect h = (call Disconnect h)\<lparr>messageQueue := client_unregistered (messageQueue h)\<rparr>"

subsection \<open>The lifecycle methods of MQTTHub\<close>

definition hub_deviceId :: "hub \<Rightarrow> string" where
  "hub_deviceId h =
     (case deviceId (settings h) of
        None \<Rightarrow> ''Homey''
      | Some d \<Rightarrow> if d \<noteq> [] then d else ''Homey'')"

definition hub_sendBirthMessage :: "hub \<Rightarrow> hub" where
  "hub_sendBirthMessage h =
     (if BIRTH_TOPIC \<noteq> [] \<and> BIRTH_MESSAGE \<noteq> [] then
        client_publish
          (Message_new (replace BIRTH_TOPIC ''{deviceId}'' (hub_deviceId h)) BIRTH_MESSAGE (Some 1) (Some True)) h
      else h)"

definition hub_sendLastWillMessage :: "hub \<Rightarrow> hub" where
  "hub_sendLastWillMessage h =
     (if WILL_TOPIC \<noteq> [] \<and> WILL_MESSAGE \<noteq> [] then
        client_publish
          (Message_new (replace WILL_TOPIC ''{deviceId}'' (hub_deviceId h)) WILL_MESSAGE (Some 1) (Some True)) h
      else h)"

definition hub_stopCommands :: "hub \<Rightarrow> hub" where
  "hub_stopCommands h =
     (if commandHandler h then (call (Destroy CommandHandler) h)\<lparr>commandHandler := False\<rparr> else h)"

definition hub_startCommands :: "hub \<Rightarrow> hub" where
  "hub_startCommands h = (call (Create CommandHandler) (hub_stopCommands h))\<lparr>commandHandler := True\<rparr>"

definition hub_startBroadcasters :: "hub \<Rightarrow> hub" where
  "hub_startBroadcasters h =
     (let b = (broadcastDevices (settings h) \<noteq> Some False);
          h1 = (if homieDispatcher h then call (SetBroadcast HomieDispatcher b) h else h);
          h2 = (if homeAssistantDispatcher h1 then call (SetBroadcast HomeAssistantDispatcher b) h1 else h1)
      in if \<not> systemStateDispatcher h2 \<and> broadcastSystemState (settings h2) = Some True then
           (call (Create SystemStateDispatcher) h2)\<lparr>systemStateDispatcher := True\<rparr>
         else h2)"

text \<open>
  \<^verbatim>\<open>_stopBroadcasters\<close> assigns to \<^verbatim>\<open>this.systemStateDispatcher.broadcast\<close> under the
  test of \<^verbatim>\<open>this.homeAssistantDispatcher\<close>: without a system state dispatcher that is a
  TypeError, and the method ends there. The result is the state at that point with the
  error, if any.
\<close>

definition hub_stopBroadcasters :: "hub \<Rightarrow> hub \<times> error option" where
  "hub_stopBroadcasters h =
     (let h1 = (if homieDispatcher h then call (SetBroadcast HomieDispatcher False) h else h)
      in if homeAssistantDispatcher h1 \<and> \<not> systemStateDispatcher h1 then (h1, Some TypeError)
         else
           let h2 = (if homeAssistantDispatcher h1 then call (SetBroadcast SystemStateDispatcher False) h1 else h1)
           in if systemStateDispatcher h2 then
                ((call (Destroy SystemStateDispatcher) h2)\<lparr>systemStateDispatcher := False\<rparr>, None)
              else (h2, None))"

definition hub_stopCommunicationProtocol :: "string option \<Rightarrow> hub \<Rightarrow> hub" where
  "hub_stopCommunicationProtocol p h =
     (if truthy (if truthy p then p else protocol h) then
        let h1 = (if homieDispatcher h then
                    (call (Destroy HomieDispatcher) h)\<lparr>homieDispatcher := False\<rparr> else h)
        in if homeAssistantDispatcher h1 then
             (call (Destroy HomeAssistantDispatcher) h1)\<lparr>homeAssistantDispatcher := False\<rparr>
           else h1
      else h)"

text \<open>
  \<^verbatim>\<open>_startCommunicationProtocol\<close> awaits the registration of the Home Assistant
  dispatcher; \<open>reg\<close> is its outcome, and a rejection ends the method.
\<close>

definition hub_startCommunicationProtocol :: "outcome \<Rightarrow> string option \<Rightarrow> hub \<Rightarrow> hub \<times> error option" where
  "hub_startCommunicationProtocol reg p h =
     (let h1 = h\<lparr>protocol := (if truthy p then p else protocol h)\<rparr>;
          h2 = (call (Create HomieDispatcher) h1)\<lparr>homieDispatcher := True\<rparr>;
          h3 = (call (Create HomeAssistantDispatcher) h2)\<lparr>homeAssistantDispatcher := True\<rparr>;
          h4 = call (Register HomeAssistantDispatcher) h3
      in case reg of
           Rejected \<Rightarrow> (h4, Some RegisterFailed)
         | Resolved \<Rightarrow> (call (Register HomieDispatcher) h4, None))"

text \<open>
  \<^verbatim>\<open>start\<close>: \<open>conn\<close> is the outcome of \<^verbatim>\<open>await this.mqttClient.connect()\<close>. Whatever
  is thrown inside is caught and logged, so the result is the state reached.
\<close>

definition hub_start :: "outcome \<Rightarrow> outcome \<Rightarrow> hub \<Rightarrow> hub" where
  "hub_start conn reg h =
     (case conn of
        Rejected \<Rightarrow> client_connect Rejected h
      | Resolved \<Rightarrow>
          let h1 = hub_startBroadcasters
                (hub_startCommands (hub_sendBirthMessage (client_connect Resolved h)));
              p = (if truthy (settings_protocol (settings h1)) then settings_protocol (settings h1)
                   else Some ''homie3'')
          in if protocol h1 \<noteq> p then
               fst (hub_startCommunicationProtocol reg p (hub_stopCommunicationProtocol (protocol h1) h1))
             else h1)"

text \<open>\<^verbatim>\<open>stop\<close> has no handler of its own: an error inside ends it and reaches the caller.\<close>

definition hub_stop :: "hub \<Rightarrow> hub \<times> error option" where
  "hub_stop h =
     (let h1 = hub_stopCommands (client_disconnect (hub_sendLastWillMessage h))
      in case hub_stopBroadcasters h1 of
           (h2, Some e) \<Rightarrow> (h2, Some e)
         | (h2, None) \<Rightarrow> ((hub_stopCommunicationProtocol None h2)\<lparr>protocol := None\<rparr>, None))"

subsection \<open>Notions for the statements\<close>

text \<open>
  A pending entry is stale when its topic is not in the live set. \<open>deliveries h L q\<close> are
  the messages a walk along the pending order \<open>q\<close> hands to the client when \<open>L\<close> is the
  set of live topics: the first entry of each live topic, which leaves the live set.
\<close>

definition stale :: "message list \<Rightarrow> (string \<rightharpoonup> addr) \<Rightarrow> addr \<Rightarrow> bool" where
  "stale h m a = (m (mqttTopic (h ! a)) = None)"

fun deliveries :: "message list \<Rightarrow> string set \<Rightarrow> addr list \<Rightarrow> message list" where
  "deliveries h L [] = []"
| "deliveries h L (a # q) =
     (if mqttTopic (h ! a) \<in> L then (h ! a) # deliveries h (L - {mqttTopic (h ! a)}) q
      else deliveries h L q)"

text \<open>The topics of the entries of the pending order.\<close>

definition pending_topics :: "state \<Rightarrow> string set" where
  "pending_topics s = (\<lambda>a. mqttTopic (heap s ! a)) ` set (queue s)"

text \<open>
  What holds between two events: \<open>processing\<close> is set exactly while one activation of
  \<^verbatim>\<open>process\<close> is suspended, and every live topic maps to an object of that topic that is
  in the pending order.
\<close>

definition loops_ok :: "state \<Rightarrow> bool" where
  "loops_ok s = (length (suspended s) = (if processing s then 1 else 0))"

definition refs_ok :: "state \<Rightarrow> bool" where
  "refs_ok s =
     ((\<forall>t a. messages s t = Some a \<longrightarrow> a \<in> set (queue s) \<and> mqttTopic (heap s ! a) = t) \<and>
      (\<forall>a \<in> set (queue s). a < length (heap s)))"

text \<open>The pending entries whose topic is in the live set.\<close>

definition live_entries :: "state \<Rightarrow> addr list" where
  "live_entries s = filter (\<lambda>a. messages s (mqttTopic (heap s ! a)) \<noteq> None) (queue s)"

text \<open>
  A sequence of calls of \<^verbatim>\<open>add\<close> for one topic, each with its payload, options and
  \<^verbatim>\<open>process\<close> argument; and whether an event is a call of \<^verbatim>\<open>add\<close> for a topic.
\<close>

definition enqueues :: "string \<Rightarrow> (string \<times> options option \<times> bool option) list \<Rightarrow> state \<Rightarrow> state" where
  "enqueues t calls s = foldl (\<lambda>s (p, opt, proc). mq_add t p opt proc s) s calls"

fun adds :: "string \<Rightarrow> event \<Rightarrow> bool" where
  "adds t (Add topic payload opt proc) = (topic = t)"
| "adds t e = False"

text \<open>
  From \<open>s\<close> to \<open>s'\<close> topic \<open>t\<close> is not live at the end and no message of topic \<open>t\<close>
  was handed to the client.
\<close>

definition extends :: "string \<Rightarrow> state \<Rightarrow> state \<Rightarrow> bool" where
  "extends t s s' =
     (messages s' t = None \<and>
      (\<exists>xs. published s' = published s @ xs \<and> (\<forall>m \<in> set xs. mqttTopic m \<noteq> t)))"

text \<open>What a drain adds to the client's log of publish calls.\<close>

definition sent :: "state \<Rightarrow> state \<Rightarrow> message list" where
  "sent s s' = drop (length (published s)) (published s')"

text \<open>A client whose publish fails for the messages of one topic and succeeds otherwise.\<close>

definition fails_on :: "string \<Rightarrow> message \<Rightarrow> outcome" where
  "fails_on t m = (if mqttTopic m = t then Rejected else Resolved)"

text \<open>
  The settings object without properties. The application as \<^verbatim>\<open>onInit\<close> leaves it
  before it calls \<^verbatim>\<open>start\<close>, with settings \<open>st\<close> and the queue \<open>q\<close>; the actions on
  the dispatch components; the birth and last-will messages.
\<close>

definition no_settings :: settings where
  "no_settings =
     \<lparr>deviceId = None, settings_protocol = None, broadcastDevices = None, broadcastSystemState = None\<rparr>"

definition hub_init :: "settings \<Rightarrow> state \<Rightarrow> hub" where
  "hub_init st q =
     \<lparr>settings = st, protocol = None, commandHandler = False, homieDispatcher = False,
      homeAssistantDispatcher = False, systemStateDispatcher = False, messageQueue = q, trace = []\<rparr>"

fun component_action :: "action \<Rightarrow> bool" where
  "component_action (Create c) = True"
| "component_action (Register c) = True"
| "component_action (Destroy c) = True"
| "component_action (SetBroadcast c b) = True"
| "component_action a = False"

definition birth_message :: "hub \<Rightarrow> message" where
  "birth_message h =
     \<lparr>mqttTopic = replace ''{deviceId}/hub/status'' ''{deviceId}'' (hub_deviceId h),
      mqttMessage = ''online'', qos = Some 1, retain = Some True\<rparr>"

definition will_message :: "hub \<Rightarrow> message" where
  "will_message h =
     \<lparr>mqttTopic = replace ''{deviceId}/hub/status'' ''{deviceId}'' (hub_deviceId h),
      mqttMessage = ''offline'', qos = Some 1, retain = Some True\<rparr>"

text \<open>
  From \<open>h\<close> to \<open>h'\<close> only dispatch components were acted on: the queue, the client and
  the settings are as they were.
\<close>

definition component_calls :: "hub \<Rightarrow> hub \<Rightarrow> bool" where
  "component_calls h h' =
     (messageQueue h' = messageQueue h \<and> settings h' = settings h \<and>
      (\<exists>xs. trace h' = trace h @ xs \<and> list_all component_action xs))"

text \<open>The protocol the settings ask for: \<^verbatim>\<open>this.settings.protocol || 'homie3'\<close>.\<close>

definition configured_protocol :: "hub \<Rightarrow> string option" where
  "configured_protocol h =
     (if truthy (settings_protocol (settings h)) then settings_protocol (settings h)
      else Some ''homie3'')"

text \<open>What a call adds to the record of the application's actions.\<close>

definition acts :: "hub \<Rightarrow> hub \<Rightarrow> action list" where
  "acts h h' = drop (length (trace h)) (trace h')"

text \<open>A client whose every publish succeeds.\<close>

definition resolve_all :: "message \<Rightarrow> outcome" where
  "resolve_all m = Resolved"

section \<open>Properties of the queue\<close>

subsection \<open>The drain loop\<close>

lemmas mq_defs =
  mq_constructor_def subscribe_def mq_add_def mq_process_def mq_loop_def mq_next_def mq_send_def
  mq_settle_def mq_remove_def mq_clear_def mq_stop_def mq_start_def mq_destroy_def mq_drain_def
  Message_new_def exec_def client_registered_def client_unregistered_def resolve_all_def
  mq_getNextMessage.simps run.simps

lemma clear_twice: "mq_clear (mq_clear s) = mq_clear s"
  by (simp add: mq_clear_def)

lemma callbacks_clear: "foldl run_callback s fs = (if fs = [] then s else mq_clear s)"
proof (induction fs arbitrary: s)
  case Nil
  show ?case by simp
next
  case (Cons f fs)
  show ?case by (cases f) (simp add: Cons clear_twice)
qed

lemma unregistered_eq:
  "client_unregistered s =
     (if onUnRegistered s = [] then s\<lparr>registered := False\<rparr> else mq_clear (s\<lparr>registered := False\<rparr>))"
  by (simp add: client_unregistered_def callbacks_clear)

lemma getNext_dropWhile:
  "mq_getNextMessage s =
     (case dropWhile (stale (heap s) (messages s)) (queue s) of
        [] \<Rightarrow> (None, s\<lparr>queue := []\<rparr>)
      | a # q \<Rightarrow> (Some a, s\<lparr>queue := q\<rparr>))"
proof (induction s rule: mq_getNextMessage.induct)
  case (1 s)
  show ?case
  proof (cases "queue s")
    case Nil
    then show ?thesis by (simp add: mq_getNextMessage.simps [of s])
  next
    case (Cons a q)
    show ?thesis
    proof (cases "messages s (mqttTopic (heap s ! a)) \<noteq> None")
      case True
      with Cons show ?thesis
        by (auto simp add: mq_getNextMessage.simps [of s] stale_def)
    next
      case False
      with Cons have step: "mq_getNextMessage s = mq_getNextMessage (s\<lparr>queue := q\<rparr>)"
        by (simp add: mq_getNextMessage.simps [of s])
      from False Cons have drop: "dropWhile (stale (heap s) (messages s)) (queue s)
          = dropWhile (stale (heap s) (messages s)) q"
        by (simp add: stale_def)
      show ?thesis
        unfolding step drop "1.IH" [OF Cons False]
        by (simp split: list.split del: dropWhile_eq_Nil_conv)
    qed
  qed
qed

lemma mq_loop_eq:
  "mq_loop s =
     (if running s \<and> registered s \<and> queue s \<noteq> [] then
        (case dropWhile (stale (heap s) (messages s)) (queue s) of
           [] \<Rightarrow> s\<lparr>queue := [], suspended := suspended s @ [AwaitNext]\<rparr>
         | a # q \<Rightarrow>
             s\<lparr>queue := q, messages := (messages s)(mqttTopic (heap s ! a) := None),
               published := published s @ [heap s ! a],
               suspended := suspended s @ [AwaitSend (heap s ! a)]\<rparr>)
      else s\<lparr>processing := False\<rparr>)"
  by (simp add: mq_loop_def mq_next_def mq_send_def getNext_dropWhile
      split: list.split del: dropWhile_eq_Nil_conv)

lemma deliveries_dropWhile:
  "deliveries h L q = deliveries h L (dropWhile (\<lambda>a. mqttTopic (h ! a) \<notin> L) q)"
  by (induction q) simp_all

lemma deliveries_stale:
  "deliveries h (dom m) q = deliveries h (dom m) (dropWhile (stale h m) q)"
proof -
  have "stale h m = (\<lambda>a. mqttTopic (h ! a) \<notin> dom m)"
    by (auto simp add: stale_def fun_eq_iff)
  then show ?thesis using deliveries_dropWhile [of h "dom m" q] by simp
qed

lemma dropWhile_shorter: "dropWhile P xs = y # ys \<Longrightarrow> length ys < length xs"
  using length_dropWhile_le [of P xs] by simp

lemma dropWhile_stale_head: "dropWhile (stale h m) q = a # q' \<Longrightarrow> mqttTopic (h ! a) \<in> dom m"
  using hd_dropWhile [of "stale h m" q] by (auto simp add: stale_def)

text \<open>The core: a loop that starts with nothing else suspended drains the queue.\<close>

lemma run_loop_drains:
  assumes "suspended s = []" "running s" "registered s"
  shows "published (run pub (mq_loop s)) = published s @ deliveries (heap s) (dom (messages s)) (queue s)
    \<and> delivered (run pub (mq_loop s))
        = delivered s @ filter (\<lambda>m. pub m = Resolved) (deliveries (heap s) (dom (messages s)) (queue s))
    \<and> queue (run pub (mq_loop s)) = []
    \<and> suspended (run pub (mq_loop s)) = []
    \<and> \<not> processing (run pub (mq_loop s))
    \<and> heap (run pub (mq_loop s)) = heap s
    \<and> running (run pub (mq_loop s)) \<and> registered (run pub (mq_loop s))
    \<and> dom (messages (run pub (mq_loop s)))
        = dom (messages s) - mqttTopic ` set (deliveries (heap s) (dom (messages s)) (queue s))"
  using assms
proof (induction "length (queue s)" arbitrary: s rule: less_induct)
  case less
  let ?D = "dropWhile (stale (heap s) (messages s)) (queue s)"
  show ?case
  proof (cases "queue s = []")
    case True
    with less.prems show ?thesis by (simp add: mq_loop_eq run.simps)
  next
    case False
    show ?thesis
    proof (cases ?D)
      case Nil
      let ?s1 = "s\<lparr>queue := [], suspended := [], delivered := delivered s @ []\<rparr>"
      have loop: "mq_loop s = s\<lparr>queue := [], suspended := [AwaitNext]\<rparr>"
        using False Nil less.prems by (simp add: mq_loop_eq del: dropWhile_eq_Nil_conv)
      have "run pub (mq_loop s) = run pub (mq_loop ?s1)"
        using less.prems by (simp add: loop run.simps [of pub "s\<lparr>queue := [], suspended := [AwaitNext]\<rparr>"] mq_settle_def)
      moreover have "deliveries (heap s) (dom (messages s)) (queue s) = []"
        using deliveries_stale [of "heap s" "messages s" "queue s"] Nil by simp
      moreover have "length (queue ?s1) < length (queue s)" using False by simp
      ultimately show ?thesis
        using less.hyps [of ?s1] less.prems by simp
    next
      case (Cons a q)
      let ?m = "heap s ! a"
      let ?s1 = "s\<lparr>queue := q, messages := (messages s)(mqttTopic ?m := None),
               published := published s @ [?m], suspended := [],
               delivered := delivered s @ acknowledged (AwaitSend ?m) (pub ?m)\<rparr>"
      have loop: "mq_loop s = s\<lparr>queue := q, messages := (messages s)(mqttTopic ?m := None),
               published := published s @ [?m], suspended := [AwaitSend ?m]\<rparr>"
        using False Cons less.prems by (simp add: mq_loop_eq)
      have run: "run pub (mq_loop s) = run pub (mq_loop ?s1)"
        using less.prems unfolding loop
        by (subst run.simps) (simp add: mq_settle_def)
      have live: "mqttTopic ?m \<in> dom (messages s)" using dropWhile_stale_head [OF Cons] .
      have del: "deliveries (heap s) (dom (messages s)) (queue s)
          = ?m # deliveries (heap s) (dom (messages s) - {mqttTopic ?m}) q"
        using deliveries_stale [of "heap s" "messages s" "queue s"] Cons live by simp
      have short: "length (queue ?s1) < length (queue s)" using dropWhile_shorter [OF Cons] by simp
      have ack: "acknowledged (AwaitSend ?m) (pub ?m) = filter (\<lambda>m. pub m = Resolved) [?m]"
        by (cases "pub ?m") simp_all
      from less.hyps [OF short] less.prems
      show ?thesis unfolding run del
        by (auto simp add: ack)
    qed
  qed
qed


lemma dropWhile_keeps:
  assumes "dropWhile P xs = a # ys" "x \<in> set xs" "\<not> P x"
  shows "x = a \<or> x \<in> set ys"
proof -
  have "xs = takeWhile P xs @ a # ys" using assms(1) takeWhile_dropWhile_id [of P xs] by simp
  then have "x \<in> set (takeWhile P xs) \<or> x = a \<or> x \<in> set ys"
    using assms(2) by (metis Un_iff set_ConsD set_append)
  with assms(3) show ?thesis by (auto dest: set_takeWhileD)
qed

lemma dropWhile_subset: "dropWhile P xs = a # ys \<Longrightarrow> set ys \<subseteq> set xs"
  using set_dropWhileD [of _ P xs] by auto

subsection \<open>What holds between two events\<close>

lemma loop_loops_ok: "processing s \<Longrightarrow> suspended s = [] \<Longrightarrow> loops_ok (mq_loop s)"
  by (simp add: mq_loop_eq loops_ok_def split: list.split del: dropWhile_eq_Nil_conv)

lemma process_loops_ok: "loops_ok s \<Longrightarrow> loops_ok (mq_process s)"
  using loop_loops_ok [of "s\<lparr>processing := True\<rparr>"]
  by (auto simp add: mq_process_def loops_ok_def split: if_splits)

lemma settle_loops_ok: "loops_ok s \<Longrightarrow> loops_ok (mq_settle out s)"
proof (cases "suspended s")
  case Nil
  then show "loops_ok s \<Longrightarrow> ?thesis" by (simp add: mq_settle_def)
next
  case (Cons w ws)
  assume "loops_ok s"
  with Cons have "processing s" "ws = []" by (auto simp add: loops_ok_def split: if_splits)
  with Cons show ?thesis
    using loop_loops_ok [of "s\<lparr>suspended := [], delivered := delivered s @ acknowledged w out\<rparr>"]
    by (simp add: mq_settle_def)
qed

lemma add_loops_ok: "loops_ok s \<Longrightarrow> loops_ok (mq_add topic payload opt proc s)"
proof -
  assume ok: "loops_ok s"
  have "loops_ok (mq_process s1)" "loops_ok s1"
    if "suspended s1 = suspended s" "processing s1 = processing s" for s1
    using that ok process_loops_ok [of s1] by (simp_all add: loops_ok_def)
  then show ?thesis using ok
    by (simp add: mq_add_def Let_def split: option.split)
qed

lemma step_loops_ok: "loops_ok s \<Longrightarrow> loops_ok (step s e)"
proof (cases e)
  case Start
  assume "loops_ok s"
  then have "loops_ok (s\<lparr>running := True\<rparr>)" by (simp add: loops_ok_def)
  with Start show ?thesis by (simp add: mq_start_def process_loops_ok)
qed (simp_all add: add_loops_ok process_loops_ok settle_loops_ok,
    auto simp add: loops_ok_def mq_remove_def mq_stop_def mq_clear_def mq_destroy_def
      client_registered_def unregistered_eq split: if_splits)

lemma exec_loops_ok: "loops_ok s \<Longrightarrow> loops_ok (exec evs s)"
  unfolding exec_def by (induction evs arbitrary: s) (simp_all add: step_loops_ok)

lemma constructor_loops_ok: "loops_ok (mq_constructor reg)"
  by (simp add: loops_ok_def mq_constructor_def subscribe_def)

lemma loop_refs_ok:
  assumes "refs_ok s"
  shows "refs_ok (mq_loop s)"
proof (cases "running s \<and> registered s \<and> queue s \<noteq> []")
  case False
  with assms show ?thesis by (auto simp add: mq_loop_eq refs_ok_def)
next
  case True
  let ?P = "stale (heap s) (messages s)"
  show ?thesis
  proof (cases "dropWhile ?P (queue s)")
    case Nil
    then have all: "\<forall>a \<in> set (queue s). ?P a" by simp
    have "messages s t = None" for t
    proof (cases "messages s t")
      case (Some a)
      with assms have "a \<in> set (queue s)" "mqttTopic (heap s ! a) = t" by (auto simp add: refs_ok_def)
      with all Some show ?thesis by (auto simp add: stale_def)
    qed simp
    with True Nil show ?thesis
      by (simp add: mq_loop_eq refs_ok_def del: dropWhile_eq_Nil_conv)
  next
    case (Cons a q)
    have "b \<in> set q" if "messages s t = Some b" "t \<noteq> mqttTopic (heap s ! a)" for t b
    proof -
      from that assms have b: "b \<in> set (queue s)" "mqttTopic (heap s ! b) = t" by (auto simp add: refs_ok_def)
      with that have "\<not> ?P b" by (simp add: stale_def)
      from dropWhile_keeps [OF Cons b(1) this] b that show ?thesis by auto
    qed
    moreover have "set q \<subseteq> set (queue s)" using dropWhile_subset [OF Cons] .
    ultimately show ?thesis using True Cons assms
      by (auto simp add: mq_loop_eq refs_ok_def)
  qed
qed

lemma process_refs_ok: "refs_ok s \<Longrightarrow> refs_ok (mq_process s)"
  using loop_refs_ok [of "s\<lparr>processing := True\<rparr>"] by (simp add: mq_process_def refs_ok_def)

lemma settle_refs_ok: "refs_ok s \<Longrightarrow> refs_ok (mq_settle out s)"
  using loop_refs_ok [of "s\<lparr>suspended := tl (suspended s), delivered := delivered s @ acknowledged (hd (suspended s)) out\<rparr>"]
  by (cases "suspended s") (simp_all add: mq_settle_def refs_ok_def)

lemma topic_update:
  "mqttTopic (h[a := (h ! a)\<lparr>mqttMessage := p, qos := q, retain := r\<rparr>] ! b) = mqttTopic (h ! b)"
  by (cases "a < length h"; cases "b = a") (simp_all add: list_update_beyond)

lemma enqueue_refs_ok:
  assumes "refs_ok s"
  shows "refs_ok (case messages s topic of
        None \<Rightarrow> s\<lparr>heap := heap s @ [Message_new topic payload q r],
                   messages := (messages s)(topic \<mapsto> length (heap s)),
                   queue := queue s @ [length (heap s)]\<rparr>
      | Some a \<Rightarrow> s\<lparr>heap := (heap s)[a := (heap s ! a)\<lparr>mqttMessage := payload, qos := q, retain := r\<rparr>]\<rparr>)"
proof (cases "messages s topic")
  case None
  with assms show ?thesis
    by (auto simp add: refs_ok_def nth_append Message_new_def)
next
  case (Some a)
  with assms show ?thesis
    by (simp add: refs_ok_def topic_update)
qed

lemma add_refs_ok: "refs_ok s \<Longrightarrow> refs_ok (mq_add topic payload opt proc s)"
  using enqueue_refs_ok [of s topic payload] process_refs_ok
  by (simp add: mq_add_def Let_def)

lemma step_refs_ok: "refs_ok s \<Longrightarrow> refs_ok (step s e)"
proof (cases e)
  case Start
  assume "refs_ok s"
  then have "refs_ok (s\<lparr>running := True\<rparr>)" by (simp add: refs_ok_def)
  with Start show ?thesis by (simp add: mq_start_def process_refs_ok)
qed (simp_all add: add_refs_ok process_refs_ok settle_refs_ok, simp_all add: refs_ok_def mq_remove_def mq_stop_def mq_clear_def mq_destroy_def
      client_registered_def unregistered_eq)

lemma exec_refs_ok: "refs_ok s \<Longrightarrow> refs_ok (exec evs s)"
  unfolding exec_def by (induction evs arbitrary: s) (simp_all add: step_refs_ok)

lemma constructor_refs_ok: "refs_ok (mq_constructor reg)"
  by (simp add: refs_ok_def mq_constructor_def subscribe_def)


subsection \<open>What a walk along the pending order delivers\<close>

lemma deliveries_live: "m \<in> set (deliveries h L q) \<Longrightarrow> mqttTopic m \<in> L"
  by (induction q arbitrary: L) (auto split: if_splits)

lemma deliveries_distinct: "distinct (map mqttTopic (deliveries h L q))"
  by (induction q arbitrary: L) (auto dest: deliveries_live)

lemma deliveries_topics:
  "mqttTopic ` set (deliveries h L q) = L \<inter> (\<lambda>a. mqttTopic (h ! a)) ` set q"
proof (induction q arbitrary: L)
  case Nil
  show ?case by simp
next
  case (Cons a q)
  show ?case
  proof (cases "mqttTopic (h ! a) \<in> L")
    case True
    then show ?thesis using Cons [of "L - {mqttTopic (h ! a)}"] by auto
  next
    case False
    then show ?thesis using Cons [of L] by auto
  qed
qed

lemma deliveries_length:
  "length (deliveries h L q) = card (L \<inter> (\<lambda>a. mqttTopic (h ! a)) ` set q)"
proof -
  have "length (deliveries h L q) = length (map mqttTopic (deliveries h L q))" by simp
  also have "\<dots> = card (set (map mqttTopic (deliveries h L q)))"
    using deliveries_distinct [of h L q] by (simp only: distinct_card)
  also have "\<dots> = card (L \<inter> (\<lambda>a. mqttTopic (h ! a)) ` set q)"
    using deliveries_topics [of h L q] by simp
  finally show ?thesis .
qed

lemma deliveries_none: "t \<notin> L \<Longrightarrow> filter (\<lambda>m. mqttTopic m = t) (deliveries h L q) = []"
  by (auto simp add: filter_empty_conv dest: deliveries_live)

lemma deliveries_first:
  assumes "t \<in> L" "\<forall>b \<in> set q0. mqttTopic (h ! b) \<noteq> t" "mqttTopic (h ! a) = t"
  shows "filter (\<lambda>m. mqttTopic m = t) (deliveries h L (q0 @ a # q1)) = [h ! a]"
  using assms
proof (induction q0 arbitrary: L)
  case Nil
  then show ?case using deliveries_none [of t "L - {t}" h q1] by simp
next
  case (Cons b q0)
  then show ?case by auto
qed


subsection \<open>A drain followed to its end\<close>

lemma drain_idle: "\<not> processing s \<Longrightarrow> mq_drain pub s = run pub (mq_loop (s\<lparr>processing := True\<rparr>))"
  by (simp add: mq_drain_def mq_process_def)

lemma drain_busy:
  "processing s \<Longrightarrow> suspended s = [w] \<Longrightarrow>
   mq_drain pub s = run pub (mq_loop (s\<lparr>suspended := [], delivered := delivered s
      @ acknowledged w (case w of AwaitSend m \<Rightarrow> pub m | AwaitNext \<Rightarrow> Resolved)\<rparr>))"
  by (cases w) (simp_all add: mq_drain_def mq_process_def run.simps [of pub s] mq_settle_def)

lemma loops_ok_cases:
  assumes "loops_ok s"
  obtains (idle) "\<not> processing s" "suspended s = []" | (busy) w where "processing s" "suspended s = [w]"
proof (cases "processing s")
  case False
  with assms idle show ?thesis by (simp add: loops_ok_def)
next
  case True
  with assms busy show ?thesis by (cases "suspended s") (auto simp add: loops_ok_def)
qed

lemma drain_running:
  assumes "loops_ok s" "running s" "registered s"
  shows "published (mq_drain pub s) = published s @ deliveries (heap s) (dom (messages s)) (queue s)"
    and "queue (mq_drain pub s) = []"
    and "suspended (mq_drain pub s) = []"
    and "\<not> processing (mq_drain pub s)"
    and "heap (mq_drain pub s) = heap s"
    and "running (mq_drain pub s)"
    and "registered (mq_drain pub s)"
    and "dom (messages (mq_drain pub s))
        = dom (messages s) - mqttTopic ` set (deliveries (heap s) (dom (messages s)) (queue s))"
proof -
  have "published (mq_drain pub s) = published s @ deliveries (heap s) (dom (messages s)) (queue s)
    \<and> queue (mq_drain pub s) = [] \<and> suspended (mq_drain pub s) = [] \<and> \<not> processing (mq_drain pub s)
    \<and> heap (mq_drain pub s) = heap s \<and> running (mq_drain pub s) \<and> registered (mq_drain pub s)
    \<and> dom (messages (mq_drain pub s))
        = dom (messages s) - mqttTopic ` set (deliveries (heap s) (dom (messages s)) (queue s))"
    using assms(1)
  proof (cases rule: loops_ok_cases)
    case idle
    then show ?thesis
      using run_loop_drains [of "s\<lparr>processing := True\<rparr>" pub] assms(2,3)
      by (simp add: drain_idle)
  next
    case (busy w)
    then show ?thesis
      using run_loop_drains [of "s\<lparr>suspended := [], delivered := delivered s
        @ acknowledged w (case w of AwaitSend m \<Rightarrow> pub m | AwaitNext \<Rightarrow> Resolved)\<rparr>" pub] assms(2,3)
      by (simp add: drain_busy)
  qed
  then show "published (mq_drain pub s) = published s @ deliveries (heap s) (dom (messages s)) (queue s)"
    and "queue (mq_drain pub s) = []"
    and "suspended (mq_drain pub s) = []"
    and "\<not> processing (mq_drain pub s)"
    and "heap (mq_drain pub s) = heap s"
    and "running (mq_drain pub s)"
    and "registered (mq_drain pub s)"
    and "dom (messages (mq_drain pub s))
        = dom (messages s) - mqttTopic ` set (deliveries (heap s) (dom (messages s)) (queue s))"
    by simp_all
qed

lemma drain_idle_delivered:
  assumes "\<not> processing s" "suspended s = []" "running s" "registered s"
  shows "delivered (mq_drain pub s)
    = delivered s @ filter (\<lambda>m. pub m = Resolved) (deliveries (heap s) (dom (messages s)) (queue s))"
  using run_loop_drains [of "s\<lparr>processing := True\<rparr>" pub] assms
  by (simp add: drain_idle)

lemma drain_not_running:
  assumes "loops_ok s" "\<not> (running s \<and> registered s)"
  shows "published (mq_drain pub s) = published s"
    and "queue (mq_drain pub s) = queue s"
    and "messages (mq_drain pub s) = messages s"
    and "suspended (mq_drain pub s) = []"
    and "\<not> processing (mq_drain pub s)"
proof -
  have stop: "run pub (mq_loop x) = x\<lparr>processing := False\<rparr>"
    if "suspended x = []" "\<not> (running x \<and> registered x)" for x
    using that by (auto simp add: mq_loop_def run.simps [of pub "x\<lparr>processing := False\<rparr>"])
  have "published (mq_drain pub s) = published s \<and> queue (mq_drain pub s) = queue s
    \<and> messages (mq_drain pub s) = messages s \<and> suspended (mq_drain pub s) = []
    \<and> \<not> processing (mq_drain pub s)"
    using assms(1)
  proof (cases rule: loops_ok_cases)
    case idle
    then show ?thesis using stop [of "s\<lparr>processing := True\<rparr>"] assms(2) by (simp add: drain_idle)
  next
    case (busy w)
    then show ?thesis
      using stop [of "s\<lparr>suspended := [], delivered := delivered s
        @ acknowledged w (case w of AwaitSend m \<Rightarrow> pub m | AwaitNext \<Rightarrow> Resolved)\<rparr>"] assms(2)
      by (simp add: drain_busy)
  qed
  then show "published (mq_drain pub s) = published s"
    and "queue (mq_drain pub s) = queue s"
    and "messages (mq_drain pub s) = messages s"
    and "suspended (mq_drain pub s) = []"
    and "\<not> processing (mq_drain pub s)"
    by simp_all
qed

lemma drain_sent:
  assumes "loops_ok s" "running s" "registered s"
  shows "sent s (mq_drain pub s) = deliveries (heap s) (dom (messages s)) (queue s)"
  by (simp add: sent_def drain_running(1) [OF assms])

lemma live_pending: "refs_ok s \<Longrightarrow> dom (messages s) \<subseteq> pending_topics s"
  by (auto simp add: refs_ok_def pending_topics_def)

lemma drain_topics:
  assumes "loops_ok s" "refs_ok s" "running s" "registered s"
  shows "mqttTopic ` set (sent s (mq_drain pub s)) = dom (messages s)"
    and "length (sent s (mq_drain pub s)) = card (dom (messages s))"
    and "messages (mq_drain pub s) = Map.empty"
proof -
  have inter: "dom (messages s) \<inter> (\<lambda>a. mqttTopic (heap s ! a)) ` set (queue s) = dom (messages s)"
    using live_pending [OF assms(2)] by (auto simp add: pending_topics_def)
  show 1: "mqttTopic ` set (sent s (mq_drain pub s)) = dom (messages s)"
    by (simp add: drain_sent [OF assms(1,3,4)] deliveries_topics inter)
  show "length (sent s (mq_drain pub s)) = card (dom (messages s))"
    by (simp add: drain_sent [OF assms(1,3,4)] deliveries_length inter)
  have "dom (messages (mq_drain pub s)) = {}"
    using 1 by (simp add: drain_running(8) [OF assms(1,3,4)] drain_sent [OF assms(1,3,4)])
  then show "messages (mq_drain pub s) = Map.empty" by simp
qed


subsection \<open>Enqueues that start no drain\<close>

lemma add_quiet_new:
  assumes "registered s" "t \<noteq> []" "messages s t = None" "processing s \<or> proc = Some False"
  shows "mq_add t p opt proc s =
    s\<lparr>heap := heap s @ [Message_new t p (opt_qos (opt_or_empty opt)) (opt_retain (opt_or_empty opt))],
      messages := (messages s)(t \<mapsto> length (heap s)),
      queue := queue s @ [length (heap s)]\<rparr>"
  using assms by (auto simp add: mq_add_def mq_process_def Let_def)

lemma add_quiet_live:
  assumes "registered s" "t \<noteq> []" "messages s t = Some a" "processing s \<or> proc = Some False"
  shows "mq_add t p opt proc s =
    s\<lparr>heap := (heap s)[a := (heap s ! a)\<lparr>mqttMessage := p, qos := opt_qos (opt_or_empty opt),
        retain := opt_retain (opt_or_empty opt)\<rparr>]\<rparr>"
  using assms by (auto simp add: mq_add_def mq_process_def Let_def)

lemma enqueues_live:
  assumes "registered s" "t \<noteq> []" "messages s t = Some a" "a < length (heap s)"
    "mqttTopic (heap s ! a) = t"
    "processing s \<or> (\<forall>c \<in> set calls. snd (snd c) = Some False)"
    "calls \<noteq> []" "last calls = (p, opt, proc)"
  shows "enqueues t calls s =
    s\<lparr>heap := (heap s)[a := \<lparr>mqttTopic = t, mqttMessage = p, qos = opt_qos (opt_or_empty opt),
        retain = opt_retain (opt_or_empty opt)\<rparr>]\<rparr>"
  using assms
proof (induction calls arbitrary: s)
  case Nil
  then show ?case by simp
next
  case (Cons c calls)
  obtain p1 o1 pr1 where c: "c = (p1, o1, pr1)" by (cases c)
  let ?m = "\<lparr>mqttTopic = t, mqttMessage = p1, qos = opt_qos (opt_or_empty o1),
        retain = opt_retain (opt_or_empty o1)\<rparr>"
  have quiet: "processing s \<or> pr1 = Some False" using Cons.prems(6) c by auto
  have "(heap s ! a)\<lparr>mqttMessage := p1, qos := opt_qos (opt_or_empty o1),
        retain := opt_retain (opt_or_empty o1)\<rparr> = ?m"
    using Cons.prems(5) by (cases "heap s ! a") simp
  then have step: "mq_add t p1 o1 pr1 s = s\<lparr>heap := (heap s)[a := ?m]\<rparr>"
    using add_quiet_live [OF Cons.prems(1-3) quiet, of p1 o1] by simp
  show ?case
  proof (cases "calls = []")
    case True
    with Cons.prems(8) c step show ?thesis by (simp add: enqueues_def)
  next
    case False
    let ?s1 = "s\<lparr>heap := (heap s)[a := ?m]\<rparr>"
    have "enqueues t calls ?s1 = ?s1\<lparr>heap := (heap ?s1)[a := \<lparr>mqttTopic = t, mqttMessage = p,
        qos = opt_qos (opt_or_empty opt), retain = opt_retain (opt_or_empty opt)\<rparr>]\<rparr>"
      using Cons.prems False by (intro Cons.IH) auto
    then show ?thesis using c step by (simp add: enqueues_def)
  qed
qed

lemma enqueues_fresh:
  assumes "registered s" "t \<noteq> []" "messages s t = None"
    "processing s \<or> (\<forall>c \<in> set calls. snd (snd c) = Some False)"
    "calls \<noteq> []" "last calls = (p, opt, proc)"
  shows "enqueues t calls s =
    s\<lparr>heap := heap s @ [if length calls = 1
          then Message_new t p (opt_qos (opt_or_empty opt)) (opt_retain (opt_or_empty opt))
          else \<lparr>mqttTopic = t, mqttMessage = p, qos = opt_qos (opt_or_empty opt),
                 retain = opt_retain (opt_or_empty opt)\<rparr>],
      messages := (messages s)(t \<mapsto> length (heap s)),
      queue := queue s @ [length (heap s)]\<rparr>"
proof -
  from assms(5) obtain c calls' where calls: "calls = c # calls'" by (cases calls) auto
  obtain p1 o1 pr1 where c: "c = (p1, o1, pr1)" by (cases c)
  let ?M = "Message_new t p1 (opt_qos (opt_or_empty o1)) (opt_retain (opt_or_empty o1))"
  let ?s1 = "s\<lparr>heap := heap s @ [?M], messages := (messages s)(t \<mapsto> length (heap s)),
      queue := queue s @ [length (heap s)]\<rparr>"
  have quiet: "processing s \<or> pr1 = Some False" using assms(4) calls c by auto
  have step: "mq_add t p1 o1 pr1 s = ?s1"
    using add_quiet_new [OF assms(1-3) quiet] .
  show ?thesis
  proof (cases "calls' = []")
    case True
    with assms(6) calls c step show ?thesis by (simp add: enqueues_def)
  next
    case False
    have "enqueues t calls' ?s1 = ?s1\<lparr>heap := (heap ?s1)[length (heap s) := \<lparr>mqttTopic = t, mqttMessage = p,
        qos = opt_qos (opt_or_empty opt), retain = opt_retain (opt_or_empty opt)\<rparr>]\<rparr>"
      using assms calls False by (intro enqueues_live) (auto simp add: Message_new_def)
    then show ?thesis using calls c step False by (simp add: enqueues_def)
  qed
qed


subsection \<open>States reached from the constructor\<close>

lemma reachable_ok:
  "loops_ok (exec evs (mq_constructor reg))" "refs_ok (exec evs (mq_constructor reg))"
  by (simp_all add: exec_loops_ok exec_refs_ok constructor_loops_ok constructor_refs_ok)


lemma drain_ends:
  assumes "loops_ok s"
  shows "\<not> processing (mq_drain pub s) \<and> suspended (mq_drain pub s) = []"
proof (cases "running s \<and> registered s")
  case True
  then show ?thesis using drain_running(3,4) [OF assms, of pub] by simp
next
  case False
  then show ?thesis using drain_not_running(4,5) [OF assms, of pub] by simp
qed

subsection \<open>A cancelled topic\<close>

lemma extends_refl: "messages s t = None \<Longrightarrow> extends t s s"
  by (simp add: extends_def)

lemma extends_trans: "extends t s s' \<Longrightarrow> extends t s' s'' \<Longrightarrow> extends t s s''"
  by (auto simp add: extends_def)

lemma extends_same:
  "messages s t = None \<Longrightarrow> messages s' = messages s \<Longrightarrow> published s' = published s \<Longrightarrow> extends t s s'"
  by (simp add: extends_def)

lemma loop_extends: "messages s t = None \<Longrightarrow> extends t s (mq_loop s)"
proof -
  assume none: "messages s t = None"
  have "mqttTopic (heap s ! a) \<noteq> t" if "dropWhile (stale (heap s) (messages s)) (queue s) = a # q" for a q
    using dropWhile_stale_head [OF that] none by auto
  with none show ?thesis
    by (auto simp add: mq_loop_eq extends_def split: list.split simp del: dropWhile_eq_Nil_conv)
qed

lemma process_extends: "messages s t = None \<Longrightarrow> extends t s (mq_process s)"
  using loop_extends [of "s\<lparr>processing := True\<rparr>" t]
  by (auto simp add: mq_process_def extends_def)

lemma settle_extends: "messages s t = None \<Longrightarrow> extends t s (mq_settle out s)"
proof (cases "suspended s")
  case Nil
  then show "messages s t = None \<Longrightarrow> ?thesis" by (simp add: mq_settle_def extends_def)
next
  case (Cons w ws)
  assume "messages s t = None"
  then show ?thesis
    using loop_extends [of "s\<lparr>suspended := ws, delivered := delivered s @ acknowledged w out\<rparr>" t] Cons
    by (simp add: mq_settle_def extends_def)
qed

lemma add_extends:
  assumes "messages s t = None" "topic \<noteq> t"
  shows "extends t s (mq_add topic payload opt proc s)"
proof -
  let ?s1 = "case messages s topic of
        None \<Rightarrow> s\<lparr>heap := heap s @ [Message_new topic payload (opt_qos (opt_or_empty opt)) (opt_retain (opt_or_empty opt))],
                   messages := (messages s)(topic \<mapsto> length (heap s)),
                   queue := queue s @ [length (heap s)]\<rparr>
      | Some a \<Rightarrow> s\<lparr>heap := (heap s)[a := (heap s ! a)\<lparr>mqttMessage := payload,
                        qos := opt_qos (opt_or_empty opt), retain := opt_retain (opt_or_empty opt)\<rparr>]\<rparr>"
  have 1: "extends t s ?s1" using assms by (simp add: extends_def split: option.split)
  then have "messages ?s1 t = None" by (simp add: extends_def)
  then have 2: "extends t ?s1 (mq_process ?s1)" by (rule process_extends)
  from 1 extends_trans [OF 1 2] extends_refl [OF assms(1)] show ?thesis
    by (simp add: mq_add_def Let_def)
qed

lemma step_extends:
  assumes "messages s t = None" "\<not> adds t e"
  shows "extends t s (step s e)"
proof (cases e)
  case (Add topic payload opt proc)
  with assms show ?thesis by (simp add: add_extends)
next
  case Start
  have "extends t s (s\<lparr>running := True\<rparr>)" using assms(1) by (simp add: extends_def)
  moreover have "extends t (s\<lparr>running := True\<rparr>) (mq_process (s\<lparr>running := True\<rparr>))"
    using assms(1) by (intro process_extends) simp
  ultimately show ?thesis using Start by (simp add: mq_start_def extends_trans)
qed (use assms(1) in \<open>simp_all add: process_extends settle_extends, simp_all add: extends_def
      mq_remove_def mq_stop_def mq_clear_def mq_destroy_def client_registered_def unregistered_eq\<close>)

lemma exec_extends:
  assumes "messages s t = None" "\<forall>e \<in> set evs. \<not> adds t e"
  shows "extends t s (exec evs s)"
  using assms
proof (induction evs arbitrary: s)
  case Nil
  then show ?case by (simp add: exec_def extends_refl)
next
  case (Cons e evs)
  have 1: "extends t s (step s e)" using Cons.prems by (simp add: step_extends)
  then have "messages (step s e) t = None" by (simp add: extends_def)
  then have "extends t (step s e) (exec evs (step s e))" using Cons.prems by (intro Cons.IH) simp_all
  with 1 show ?case by (simp add: exec_def extends_trans)
qed

lemma run_extends: "messages s t = None \<Longrightarrow> extends t s (run pub s)"
proof (induction pub s rule: run.induct)
  case (1 pub s)
  show ?case
  proof (cases "suspended s")
    case Nil
    with "1.prems" show ?thesis by (simp add: run.simps [of pub s] extends_refl)
  next
    case (Cons w ws)
    show ?thesis
    proof (cases w)
      case AwaitNext
      have a: "extends t s (mq_settle Resolved s)" using "1.prems" by (rule settle_extends)
      then have "messages (mq_settle Resolved s) t = None" by (simp add: extends_def)
      from "1.IH"(2) [OF Cons AwaitNext this] a Cons AwaitNext show ?thesis
        by (simp add: run.simps [of pub s] extends_trans)
    next
      case (AwaitSend m)
      have a: "extends t s (mq_settle (pub m) s)" using "1.prems" by (rule settle_extends)
      then have "messages (mq_settle (pub m) s) t = None" by (simp add: extends_def)
      from "1.IH"(1) [OF Cons AwaitSend this] a Cons AwaitSend show ?thesis
        by (simp add: run.simps [of pub s] extends_trans)
    qed
  qed
qed

lemma drain_extends: "messages s t = None \<Longrightarrow> extends t s (mq_drain pub s)"
  using process_extends [of s t] run_extends [of "mq_process s" t pub]
  by (auto simp add: mq_drain_def extends_def)

lemma extends_sent: "extends t s s' \<Longrightarrow> filter (\<lambda>m. mqttTopic m = t) (sent s s') = []"
  by (auto simp add: extends_def sent_def filter_empty_conv)

subsection \<open>A drain after an enqueue\<close>

lemma process_idem: "mq_process (mq_process s) = mq_process s"
proof (cases "processing s")
  case True
  then show ?thesis by (simp add: mq_process_def)
next
  case False
  show ?thesis
  proof (cases "running s \<and> registered s \<and> queue s \<noteq> []")
    case True
    then have "processing (mq_loop (s\<lparr>processing := True\<rparr>))"
      by (simp add: mq_loop_eq split: list.split del: dropWhile_eq_Nil_conv)
    with False show ?thesis by (simp add: mq_process_def)
  next
    case no: False
    then have "mq_loop (s\<lparr>processing := True\<rparr>) = s\<lparr>processing := False\<rparr>"
      by (auto simp add: mq_loop_def)
    then show ?thesis using False no by (auto simp add: mq_process_def mq_loop_def)
  qed
qed

lemma drain_add: "mq_drain pub (mq_add t p opt proc s) = mq_drain pub (mq_add t p opt (Some False) s)"
  by (simp add: mq_add_def mq_drain_def Let_def process_idem)

lemma drain_one:
  assumes "loops_ok s" "running s" "queue s = []" "messages s = Map.empty"
  shows "published (mq_drain pub (mq_add t p opt proc s))
      = published s @ (if registered s \<and> t \<noteq> []
          then [Message_new t p (opt_qos (opt_or_empty opt)) (opt_retain (opt_or_empty opt))] else [])"
    and "queue (mq_drain pub (mq_add t p opt proc s)) = []"
    and "messages (mq_drain pub (mq_add t p opt proc s)) = Map.empty"
    and "\<not> processing (mq_drain pub (mq_add t p opt proc s))"
    and "suspended (mq_drain pub (mq_add t p opt proc s)) = []"
    and "running (mq_drain pub (mq_add t p opt proc s))"
proof -
  let ?M = "Message_new t p (opt_qos (opt_or_empty opt)) (opt_retain (opt_or_empty opt))"
  let ?x = "mq_add t p opt (Some False) s"
  have "published (mq_drain pub ?x) = published s @ (if registered s \<and> t \<noteq> [] then [?M] else [])
    \<and> queue (mq_drain pub ?x) = [] \<and> messages (mq_drain pub ?x) = Map.empty
    \<and> \<not> processing (mq_drain pub ?x) \<and> suspended (mq_drain pub ?x) = []
    \<and> running (mq_drain pub ?x)"
  proof (cases "registered s \<and> t \<noteq> []")
    case True
    let ?s1 = "s\<lparr>heap := heap s @ [?M], messages := (messages s)(t \<mapsto> length (heap s)),
      queue := queue s @ [length (heap s)]\<rparr>"
    have x: "?x = ?s1" using True assms(4) by (intro add_quiet_new) simp_all
    have ok: "loops_ok ?s1" using assms(1) by (simp add: loops_ok_def)
    have run: "running ?s1" "registered ?s1" using True assms(2) by simp_all
    have "dom (messages (mq_drain pub ?s1)) = {}"
      using drain_running(8) [OF ok run, of pub] assms(3,4) by (simp add: Message_new_def)
    then have "messages (mq_drain pub ?s1) = Map.empty" by simp
    then show ?thesis unfolding x
      using drain_running(1-4,6) [OF ok run, of pub] assms(3,4) True
      by (simp add: Message_new_def)
  next
    case False
    then have x: "?x = s" by (auto simp add: mq_add_def)
    show ?thesis
    proof (cases "registered s")
      case True
      have "dom (messages (mq_drain pub s)) = {}"
        using drain_running(8) [OF assms(1,2) True, of pub] assms(3,4) by simp
      then have "messages (mq_drain pub s) = Map.empty" by simp
      then show ?thesis unfolding x
        using drain_running(1-4,6) [OF assms(1,2) True, of pub] assms(3,4) False by simp
    next
      case no: False
      have "running (mq_drain pub s)"
      proof (cases rule: loops_ok_cases [OF assms(1)])
        case 1
        then show ?thesis using no assms(2)
          by (simp add: drain_idle mq_loop_def run.simps [of pub "s\<lparr>processing := False\<rparr>"])
      next
        case (2 w)
        then show ?thesis using no assms(2)
          by (simp add: drain_busy mq_loop_def
              run.simps [of pub "s\<lparr>suspended := [], delivered := delivered s @
                acknowledged w (case w of AwaitSend m \<Rightarrow> pub m | AwaitNext \<Rightarrow> Resolved),
                processing := False\<rparr>"])
      qed
      then show ?thesis unfolding x
        using drain_not_running [OF assms(1), of pub] no assms(3,4) by simp
    qed
  qed
  then show "published (mq_drain pub (mq_add t p opt proc s))
      = published s @ (if registered s \<and> t \<noteq> [] then [?M] else [])"
    and "queue (mq_drain pub (mq_add t p opt proc s)) = []"
    and "messages (mq_drain pub (mq_add t p opt proc s)) = Map.empty"
    and "\<not> processing (mq_drain pub (mq_add t p opt proc s))"
    and "suspended (mq_drain pub (mq_add t p opt proc s)) = []"
    and "running (mq_drain pub (mq_add t p opt proc s))"
    unfolding drain_add [of pub t p opt proc s] by simp_all
qed

subsection \<open>Enqueues of a topic that has no pending entry\<close>

text \<open>
  Take a queue reached from its constructor by any calls, whose client is registered and
  whose pending order has no entry of topic \<open>t\<close>, and a non-empty sequence of calls of
  \<^verbatim>\<open>add\<close> for \<open>t\<close> none of which starts a drain (each is called with
  \<^verbatim>\<open>process = false\<close>, or a drain is suspended already). Then the pending order has gained
  one entry, at the place the first call appended it; the object there has the payload,
  qos and retain that the last call gave (stored by the constructor when there was one
  call only, assigned as they are otherwise); nothing was published meanwhile; and if the
  queue is running, a drain publishes exactly one message of topic \<open>t\<close>, that object.
\<close>

lemma enqueues_coalesce:
  assumes "s0 = exec evs (mq_constructor reg)"
    and "registered s0" and "t \<noteq> []" and "t \<notin> pending_topics s0"
    and "calls \<noteq> []" and "last calls = (p, opt, proc)"
    and "processing s0 \<or> (\<forall>c \<in> set calls. snd (snd c) = Some False)"
  shows "queue (enqueues t calls s0) = queue s0 @ [length (heap s0)]
    \<and> heap (enqueues t calls s0) ! length (heap s0)
        = (if length calls = 1
           then Message_new t p (case opt of None \<Rightarrow> None | Some x \<Rightarrow> opt_qos x)
                  (case opt of None \<Rightarrow> None | Some x \<Rightarrow> opt_retain x)
           else \<lparr>mqttTopic = t, mqttMessage = p,
                  qos = (case opt of None \<Rightarrow> None | Some x \<Rightarrow> opt_qos x),
                  retain = (case opt of None \<Rightarrow> None | Some x \<Rightarrow> opt_retain x)\<rparr>)
    \<and> published (enqueues t calls s0) = published s0
    \<and> (running s0 \<longrightarrow>
         filter (\<lambda>m. mqttTopic m = t) (sent (enqueues t calls s0) (mq_drain pub (enqueues t calls s0)))
           = [heap (enqueues t calls s0) ! length (heap s0)])"
proof -
  let ?M = "if length calls = 1
           then Message_new t p (opt_qos (opt_or_empty opt)) (opt_retain (opt_or_empty opt))
           else \<lparr>mqttTopic = t, mqttMessage = p, qos = opt_qos (opt_or_empty opt),
                  retain = opt_retain (opt_or_empty opt)\<rparr>"
  let ?a = "length (heap s0)"
  let ?s = "enqueues t calls s0"
  have ok: "loops_ok s0" "refs_ok s0" using assms(1) reachable_ok by simp_all
  have fresh: "messages s0 t = None"
    using live_pending [OF ok(2)] assms(4) by (cases "messages s0 t") auto
  have s: "?s = s0\<lparr>heap := heap s0 @ [?M], messages := (messages s0)(t \<mapsto> ?a),
      queue := queue s0 @ [?a]\<rparr>"
    using enqueues_fresh [OF assms(2,3) fresh assms(7,5,6)] .
  have topic: "mqttTopic ?M = t" by (simp add: Message_new_def)
  have 1: "queue ?s = queue s0 @ [?a]" and 2: "heap ?s ! ?a = ?M" and 3: "published ?s = published s0"
    unfolding s by simp_all
  have 4: "filter (\<lambda>m. mqttTopic m = t) (sent ?s (mq_drain pub ?s)) = [heap ?s ! ?a]" if "running s0"
  proof -
    have "loops_ok ?s" using ok(1) unfolding s by (simp add: loops_ok_def)
    moreover have "running ?s" "registered ?s" using that assms(2) unfolding s by simp_all
    ultimately have sent: "sent ?s (mq_drain pub ?s) = deliveries (heap ?s) (dom (messages ?s)) (queue ?s)"
      by (rule drain_sent)
    have old: "mqttTopic (heap ?s ! b) \<noteq> t" if "b \<in> set (queue s0)" for b
    proof -
      from that ok(2) have "b < length (heap s0)" by (simp add: refs_ok_def)
      then have "heap ?s ! b = heap s0 ! b" unfolding s by (simp add: nth_append)
      moreover from that assms(4) have "mqttTopic (heap s0 ! b) \<noteq> t" by (auto simp add: pending_topics_def)
      ultimately show ?thesis by simp
    qed
    have "filter (\<lambda>m. mqttTopic m = t) (deliveries (heap ?s) (dom (messages ?s)) (queue s0 @ ?a # []))
        = [heap ?s ! ?a]"
    proof (rule deliveries_first)
      show "t \<in> dom (messages ?s)" unfolding s by simp
      show "\<forall>b \<in> set (queue s0). mqttTopic (heap ?s ! b) \<noteq> t" using old by blast
      show "mqttTopic (heap ?s ! ?a) = t" using 2 topic by simp
    qed
    then show ?thesis unfolding sent using 1 by simp
  qed
  have conv: "opt_qos (opt_or_empty opt) = (case opt of None \<Rightarrow> None | Some x \<Rightarrow> opt_qos x)"
    "opt_retain (opt_or_empty opt) = (case opt of None \<Rightarrow> None | Some x \<Rightarrow> opt_retain x)"
    by (cases opt; simp)+
  from 1 2 3 4 show ?thesis unfolding conv [symmetric] by blast
qed


subsection \<open>The flags and the subscription\<close>

lemma loop_kept:
  "running (mq_loop s) = running s" "onUnRegistered (mq_loop s) = onUnRegistered s"
  "registered (mq_loop s) = registered s"
  by (simp_all add: mq_loop_eq split: list.split del: dropWhile_eq_Nil_conv)

lemma process_kept:
  "running (mq_process s) = running s" "onUnRegistered (mq_process s) = onUnRegistered s"
  "registered (mq_process s) = registered s"
  by (simp_all add: mq_process_def loop_kept)

lemma settle_kept:
  "running (mq_settle out s) = running s" "onUnRegistered (mq_settle out s) = onUnRegistered s"
  by (simp_all add: mq_settle_def loop_kept split: list.split)

lemma add_kept:
  "running (mq_add t p opt proc s) = running s"
  "onUnRegistered (mq_add t p opt proc s) = onUnRegistered s"
  "registered (mq_add t p opt proc s) = registered s"
  by (simp_all add: mq_add_def Let_def process_kept split: option.split)

lemma step_callbacks: "onUnRegistered (step s e) = onUnRegistered s"
  by (cases e)
    (simp_all add: add_kept process_kept settle_kept mq_remove_def mq_start_def mq_stop_def
      mq_clear_def mq_destroy_def client_registered_def unregistered_eq)

lemma exec_callbacks: "onUnRegistered (exec evs s) = onUnRegistered s"
  unfolding exec_def by (induction evs arbitrary: s) (simp_all add: step_callbacks)

lemma reachable_callbacks: "onUnRegistered (exec evs (mq_constructor reg)) = [QueueClear]"
  by (simp add: exec_callbacks) (simp add: mq_constructor_def subscribe_def)

lemma loop_stopped: "\<not> running s \<Longrightarrow> mq_loop s = s\<lparr>processing := False\<rparr>"
  by (simp add: mq_loop_def)

lemma add_stopped: "\<not> running s \<Longrightarrow> published (mq_add t p opt proc s) = published s"
  by (simp add: mq_add_def Let_def mq_process_def loop_stopped split: option.split)

lemma run_running: "running (run pub s) = running s"
proof (induction pub s rule: run.induct)
  case (1 pub s)
  show ?case
  proof (cases "suspended s")
    case Nil
    then show ?thesis by (simp add: run.simps [of pub s])
  next
    case (Cons w ws)
    show ?thesis
    proof (cases w)
      case AwaitNext
      from "1.IH"(2) [OF Cons AwaitNext] Cons AwaitNext show ?thesis
        by (simp add: run.simps [of pub s] settle_kept)
    next
      case (AwaitSend m)
      from "1.IH"(1) [OF Cons AwaitSend] Cons AwaitSend show ?thesis
        by (simp add: run.simps [of pub s] settle_kept)
    qed
  qed
qed

lemma drain_flag: "running (mq_drain pub s) = running s"
  by (simp add: mq_drain_def run_running process_kept)

section \<open>The claims about the queue\<close>

subsection \<open>Enqueues of one topic before a drain\<close>

text \<open>
  C1 has every sequence of enqueues of one topic, made before a drain, end in one publish
  with the payload, qos and retain of the last call. The code at the input
  \<^verbatim>\<open>add("t", "1", {}, false)\<close>, \<^verbatim>\<open>remove("t")\<close>, \<^verbatim>\<open>add("t", "2", {}, false)\<close>,
  \<^verbatim>\<open>add("t", "3", {qos: 1, retain: true}, false)\<close>, with no drain so far: the cancelled
  entry is still first in the pending order, the second call appends a new Message behind
  it, the third mutates that one in place, and the drain publishes one message of topic
  \<open>t\<close>, the cancelled one, with the payload \<open>1\<close> and the options of the first call.
\<close>

theorem C1_cancelled_payload_published:
  "queue (enqueues ''t''
      [(''2'', None, Some False), (''3'', Some \<lparr>opt_qos = Some 1, opt_retain = Some True\<rparr>, Some False)]
      (exec [Add ''t'' ''1'' None (Some False), Remove ''t''] (mq_constructor True))) = [0, 1]
   \<and> heap (enqueues ''t''
      [(''2'', None, Some False), (''3'', Some \<lparr>opt_qos = Some 1, opt_retain = Some True\<rparr>, Some False)]
      (exec [Add ''t'' ''1'' None (Some False), Remove ''t''] (mq_constructor True)))
      = [\<lparr>mqttTopic = ''t'', mqttMessage = ''1'', qos = Some 0, retain = None\<rparr>,
         \<lparr>mqttTopic = ''t'', mqttMessage = ''3'', qos = Some 1, retain = Some True\<rparr>]
   \<and> published (enqueues ''t''
      [(''2'', None, Some False), (''3'', Some \<lparr>opt_qos = Some 1, opt_retain = Some True\<rparr>, Some False)]
      (exec [Add ''t'' ''1'' None (Some False), Remove ''t''] (mq_constructor True))) = []
   \<and> published (mq_drain resolve_all (enqueues ''t''
      [(''2'', None, Some False), (''3'', Some \<lparr>opt_qos = Some 1, opt_retain = Some True\<rparr>, Some False)]
      (exec [Add ''t'' ''1'' None (Some False), Remove ''t''] (mq_constructor True))))
      = [\<lparr>mqttTopic = ''t'', mqttMessage = ''1'', qos = Some 0, retain = None\<rparr>]"
  by (simp add: mq_defs enqueues_def)

subsection \<open>Two enqueues of one topic, the second without options\<close>

text \<open>
  C2, as the spec states it, would have the drain publish \<open>retain = true\<close>. The second
  call of \<^verbatim>\<open>add\<close> finds the live Message and assigns \<^verbatim>\<open>opt.retain\<close> of its own, empty,
  options to it: the one message published has no retain flag.
\<close>

theorem C2_retain_not_kept:
  "published (mq_drain resolve_all
     (mq_add ''a/b'' ''2'' None (Some False)
       (mq_add ''a/b'' ''1'' (Some \<lparr>opt_qos = None, opt_retain = Some True\<rparr>) (Some False)
         (mq_constructor True))))
     = [\<lparr>mqttTopic = ''a/b'', mqttMessage = ''2'', qos = None, retain = None\<rparr>]
   \<and> map retain (published (mq_drain resolve_all
     (mq_add ''a/b'' ''2'' None (Some False)
       (mq_add ''a/b'' ''1'' (Some \<lparr>opt_qos = None, opt_retain = Some True\<rparr>) (Some False)
         (mq_constructor True))))) \<noteq> [Some True]"
  by (simp add: mq_defs)

text \<open>
  C2, amended: after \<^verbatim>\<open>add("a/b", p1, o1)\<close> and \<^verbatim>\<open>add("a/b", "2")\<close>, both before any
  drain, a drain publishes exactly one message, with topic \<open>a/b\<close>, payload \<open>2\<close> and the qos
  and retain of the second call, which are absent, whatever the options \<open>o1\<close> of the first
  call were and whatever the outcome of the publish.
\<close>

theorem C2_second_call_wins:
  "published (mq_drain pub
     (mq_add ''a/b'' ''2'' None (Some False)
       (mq_add ''a/b'' p1 o1 (Some False) (mq_constructor True))))
     = [\<lparr>mqttTopic = ''a/b'', mqttMessage = ''2'', qos = None, retain = None\<rparr>]"
  by (cases o1) (simp_all add: mq_defs)

subsection \<open>A topic cancelled and enqueued again\<close>

text \<open>
  C3 has the pending order hold at most one entry whose topic is in the live set. The
  code at the input \<^verbatim>\<open>add("a", "0")\<close>, \<^verbatim>\<open>add("t", "1")\<close>, \<^verbatim>\<open>remove("t")\<close>,
  \<^verbatim>\<open>add("t", "2")\<close>, the first call having started the drain that the others find
  suspended: two pending entries have the live topic \<open>t\<close>, and the drain, which tests the
  topic of an entry and not the entry, publishes the cancelled one with its payload \<open>1\<close>
  and then skips the live one with the payload \<open>2\<close>.
\<close>

theorem C3_cancelled_entry_published:
  "live_entries (exec [Add ''a'' ''0'' None None, Add ''t'' ''1'' None None, Remove ''t'',
        Add ''t'' ''2'' None None] (mq_constructor True)) = [1, 2]
   \<and> messages (exec [Add ''a'' ''0'' None None, Add ''t'' ''1'' None None, Remove ''t'',
        Add ''t'' ''2'' None None] (mq_constructor True)) ''t'' = Some 2
   \<and> published (exec [Add ''a'' ''0'' None None, Add ''t'' ''1'' None None, Remove ''t'',
        Add ''t'' ''2'' None None, Settle Resolved, Settle Resolved, Settle Resolved] (mq_constructor True))
      = [\<lparr>mqttTopic = ''a'', mqttMessage = ''0'', qos = Some 0, retain = None\<rparr>,
         \<lparr>mqttTopic = ''t'', mqttMessage = ''1'', qos = Some 0, retain = None\<rparr>]
   \<and> suspended (exec [Add ''a'' ''0'' None None, Add ''t'' ''1'' None None, Remove ''t'',
        Add ''t'' ''2'' None None, Settle Resolved, Settle Resolved, Settle Resolved] (mq_constructor True)) = []
   \<and> queue (exec [Add ''a'' ''0'' None None, Add ''t'' ''1'' None None, Remove ''t'',
        Add ''t'' ''2'' None None, Settle Resolved, Settle Resolved, Settle Resolved] (mq_constructor True)) = []"
  by (simp add: mq_defs live_entries_def)

subsection \<open>One drain loop at a time\<close>

text \<open>
  C4: in every state reached from the constructor by any calls and settlements, a call of
  \<^verbatim>\<open>process\<close> while the reentrancy flag is set returns at once and changes nothing, so
  nothing is published by it; at most one activation of \<^verbatim>\<open>process\<close> is suspended, and
  the flag is set exactly when one is; a drain followed to its end leaves the flag false
  and no activation behind, whatever each publish does (every outcome, failures included,
  is allowed by \<open>pub\<close>); and while the queue is running and the client registered, the
  drain publishes as many messages as there are live topics when it starts, one of each
  topic.
\<close>

theorem C4_one_drain_loop:
  assumes "s = exec evs (mq_constructor reg)"
  shows "(processing s \<longrightarrow> mq_process s = s)
    \<and> length (suspended s) \<le> 1
    \<and> (processing s \<longleftrightarrow> suspended s \<noteq> [])
    \<and> \<not> processing (mq_drain pub s) \<and> suspended (mq_drain pub s) = []
    \<and> (running s \<and> registered s \<longrightarrow>
         length (sent s (mq_drain pub s)) = card (dom (messages s))
         \<and> mqttTopic ` set (sent s (mq_drain pub s)) = dom (messages s)
         \<and> distinct (map mqttTopic (sent s (mq_drain pub s))))"
proof -
  have ok: "loops_ok s" "refs_ok s" using assms reachable_ok by simp_all
  have 1: "processing s \<longrightarrow> mq_process s = s" by (simp add: mq_process_def)
  have 2: "length (suspended s) \<le> 1" "processing s \<longleftrightarrow> suspended s \<noteq> []"
    using ok(1) by (auto simp add: loops_ok_def split: if_splits)
  have 3: "\<not> processing (mq_drain pub s) \<and> suspended (mq_drain pub s) = []"
    using drain_ends [OF ok(1)] .
  have 4: "length (sent s (mq_drain pub s)) = card (dom (messages s))
         \<and> mqttTopic ` set (sent s (mq_drain pub s)) = dom (messages s)
         \<and> distinct (map mqttTopic (sent s (mq_drain pub s)))" if "running s" "registered s"
    using drain_topics(1,2) [OF ok that, of pub] deliveries_distinct
    by (simp add: drain_sent [OF ok(1) that])
  from 1 2 3 4 show ?thesis by blast
qed

theorem C4_one_drain_loop_witness:
  "processing (exec [Add ''a'' ''1'' None None, Add ''b'' ''2'' None None] (mq_constructor True))
   \<and> running (exec [Add ''a'' ''1'' None None, Add ''b'' ''2'' None None] (mq_constructor True))
   \<and> registered (exec [Add ''a'' ''1'' None None, Add ''b'' ''2'' None None] (mq_constructor True))
   \<and> mq_process (exec [Add ''a'' ''1'' None None, Add ''b'' ''2'' None None] (mq_constructor True))
       = exec [Add ''a'' ''1'' None None, Add ''b'' ''2'' None None] (mq_constructor True)
   \<and> length (suspended (exec [Add ''a'' ''1'' None None, Add ''b'' ''2'' None None] (mq_constructor True))) = 1
   \<and> dom (messages (exec [Add ''a'' ''1'' None None, Add ''b'' ''2'' None None] (mq_constructor True))) = {''b''}
   \<and> length (sent (exec [Add ''a'' ''1'' None None, Add ''b'' ''2'' None None] (mq_constructor True))
        (mq_drain resolve_all
          (exec [Add ''a'' ''1'' None None, Add ''b'' ''2'' None None] (mq_constructor True)))) = 1
   \<and> \<not> processing (mq_drain resolve_all
          (exec [Add ''a'' ''1'' None None, Add ''b'' ''2'' None None] (mq_constructor True)))"
proof -
  let ?s = "exec [Add ''a'' ''1'' None None, Add ''b'' ''2'' None None] (mq_constructor True)"
  have facts: "processing ?s" "running ?s" "registered ?s" "length (suspended ?s) = 1"
    "dom (messages ?s) = {''b''}"
    by (simp_all add: mq_defs)
  from C4_one_drain_loop [OF refl, of "[Add ''a'' ''1'' None None, Add ''b'' ''2'' None None]" True resolve_all]
    facts
  show ?thesis by simp
qed

subsection \<open>Cancelling a topic\<close>

text \<open>
  C5: \<^verbatim>\<open>remove(t)\<close> takes \<open>t\<close> out of the live set and leaves the pending order, the
  objects and the client's log as they are. After it, whatever calls and settlements
  follow, as long as none of them is an \<^verbatim>\<open>add\<close> of \<open>t\<close> again, and a drain followed
  to its end after them, no message of topic \<open>t\<close> is handed to the client. And when \<open>t\<close>
  is not in the live set (the drain loop has taken it out already, or it never was
  pending), \<^verbatim>\<open>remove(t)\<close> changes nothing; it has no failing branch.
\<close>

theorem C5_cancel:
  "queue (mq_remove t s) = queue s \<and> heap (mq_remove t s) = heap s
   \<and> messages (mq_remove t s) = (messages s)(t := None)
   \<and> published (mq_remove t s) = published s
   \<and> ((\<forall>e \<in> set evs. \<not> adds t e) \<longrightarrow>
        filter (\<lambda>m. mqttTopic m = t) (sent s (mq_drain pub (exec evs (mq_remove t s)))) = [])
   \<and> (messages s t = None \<longrightarrow> mq_remove t s = s)"
proof -
  have "filter (\<lambda>m. mqttTopic m = t) (sent s (mq_drain pub (exec evs (mq_remove t s)))) = []"
    if quiet: "\<forall>e \<in> set evs. \<not> adds t e"
  proof -
    let ?r = "mq_remove t s"
    have none: "messages ?r t = None" by (simp add: mq_remove_def)
    have 1: "extends t ?r (exec evs ?r)" using none quiet by (rule exec_extends)
    then have "messages (exec evs ?r) t = None" by (simp add: extends_def)
    then have 2: "extends t (exec evs ?r) (mq_drain pub (exec evs ?r))" by (rule drain_extends)
    have "extends t ?r (mq_drain pub (exec evs ?r))" using extends_trans [OF 1 2] .
    then have "filter (\<lambda>m. mqttTopic m = t) (sent ?r (mq_drain pub (exec evs ?r))) = []"
      by (rule extends_sent)
    then show ?thesis by (simp add: sent_def mq_remove_def)
  qed
  moreover have "mq_remove t s = s" if "messages s t = None"
    using that by (simp add: mq_remove_def fun_upd_idem)
  ultimately show ?thesis by (simp add: mq_remove_def)
qed


theorem C5_cancel_witness:
  "messages (exec [Add ''x'' ''v'' None (Some False)] (mq_constructor True)) ''x'' = Some 0
   \<and> queue (mq_remove ''x'' (exec [Add ''x'' ''v'' None (Some False)] (mq_constructor True))) = [0]
   \<and> \<not> adds ''x'' (Add ''y'' ''w'' None (Some False))
   \<and> published (mq_drain resolve_all (exec [Add ''y'' ''w'' None (Some False)]
        (mq_remove ''x'' (exec [Add ''x'' ''v'' None (Some False)] (mq_constructor True)))))
       = [\<lparr>mqttTopic = ''y'', mqttMessage = ''w'', qos = Some 0, retain = None\<rparr>]
   \<and> filter (\<lambda>m. mqttTopic m = ''x'')
        (sent (exec [Add ''x'' ''v'' None (Some False)] (mq_constructor True))
          (mq_drain resolve_all (exec [Add ''y'' ''w'' None (Some False)]
            (mq_remove ''x'' (exec [Add ''x'' ''v'' None (Some False)] (mq_constructor True)))))) = []
   \<and> messages (exec [Add ''x'' ''v'' None (Some False)] (mq_constructor True)) ''z'' = None
   \<and> mq_remove ''z'' (exec [Add ''x'' ''v'' None (Some False)] (mq_constructor True))
       = exec [Add ''x'' ''v'' None (Some False)] (mq_constructor True)"
proof -
  let ?s = "exec [Add ''x'' ''v'' None (Some False)] (mq_constructor True)"
  have facts: "messages ?s ''x'' = Some 0" "messages ?s ''z'' = None"
    "\<forall>e \<in> set [Add ''y'' ''w'' None (Some False)]. \<not> adds ''x'' e"
    "published (mq_drain resolve_all (exec [Add ''y'' ''w'' None (Some False)] (mq_remove ''x'' ?s)))
       = [\<lparr>mqttTopic = ''y'', mqttMessage = ''w'', qos = Some 0, retain = None\<rparr>]"
    by (simp_all add: mq_defs)
  have q: "queue ?s = [0]" by (simp add: mq_defs)
  from C5_cancel [of "''x''" ?s "[Add ''y'' ''w'' None (Some False)]" resolve_all] facts(3)
  have a: "queue (mq_remove ''x'' ?s) = queue ?s"
    and b: "filter (\<lambda>m. mqttTopic m = ''x'')
        (sent ?s (mq_drain resolve_all (exec [Add ''y'' ''w'' None (Some False)] (mq_remove ''x'' ?s)))) = []"
    by simp_all
  from C5_cancel [of "''z''" ?s "[]" resolve_all] facts(2)
  have c: "mq_remove ''z'' ?s = ?s" by simp
  from a b c q facts(1,2,4) show ?thesis by simp
qed
subsection \<open>A publish that fails\<close>

text \<open>
  C6: take a queue reached from its constructor by any calls, running, with a registered
  client and no drain active, and let any of the publishes of a drain fail (\<open>pub\<close> gives
  the outcome of each). The drain hands the same messages to the client as when every
  publish succeeds, so a failure does not end the loop: one message for each live topic,
  none twice. Those whose publish succeeded are delivered, the others are not tried
  again: at the end the pending order and the live set are empty.
\<close>

theorem C6_failed_publish:
  assumes "s = exec evs (mq_constructor reg)"
    and "running s" and "registered s" and "\<not> processing s"
  shows "published (mq_drain pub s) = published (mq_drain resolve_all s)
    \<and> mqttTopic ` set (sent s (mq_drain pub s)) = dom (messages s)
    \<and> distinct (map mqttTopic (sent s (mq_drain pub s)))
    \<and> delivered (mq_drain pub s) = delivered s @ filter (\<lambda>m. pub m = Resolved) (sent s (mq_drain pub s))
    \<and> queue (mq_drain pub s) = [] \<and> messages (mq_drain pub s) = Map.empty
    \<and> \<not> processing (mq_drain pub s)"
proof -
  have ok: "loops_ok s" "refs_ok s" using assms(1) reachable_ok by simp_all
  have idle: "suspended s = []" using ok(1) assms(4) by (simp add: loops_ok_def)
  have sent: "sent s (mq_drain pub s) = deliveries (heap s) (dom (messages s)) (queue s)"
    using drain_sent [OF ok(1) assms(2,3)] .
  have 1: "published (mq_drain pub s) = published (mq_drain resolve_all s)"
    by (simp add: drain_running(1) [OF ok(1) assms(2,3)])
  have 2: "mqttTopic ` set (sent s (mq_drain pub s)) = dom (messages s)"
    using drain_topics(1) [OF ok assms(2,3)] .
  have 3: "distinct (map mqttTopic (sent s (mq_drain pub s)))"
    unfolding sent by (rule deliveries_distinct)
  have 4: "delivered (mq_drain pub s) = delivered s @ filter (\<lambda>m. pub m = Resolved) (sent s (mq_drain pub s))"
    unfolding sent using drain_idle_delivered [OF assms(4) idle assms(2,3)] .
  have 5: "queue (mq_drain pub s) = []" "messages (mq_drain pub s) = Map.empty"
    "\<not> processing (mq_drain pub s)"
    using drain_running(2,4) [OF ok(1) assms(2,3)] drain_topics(3) [OF ok assms(2,3)] by simp_all
  from 1 2 3 4 5 show ?thesis by blast
qed

theorem C6_failed_publish_witness:
  "running (exec [Add ''t1'' ''1'' None (Some False), Add ''t2'' ''2'' None (Some False)] (mq_constructor True))
   \<and> registered (exec [Add ''t1'' ''1'' None (Some False), Add ''t2'' ''2'' None (Some False)] (mq_constructor True))
   \<and> \<not> processing (exec [Add ''t1'' ''1'' None (Some False), Add ''t2'' ''2'' None (Some False)] (mq_constructor True))
   \<and> fails_on ''t1'' \<lparr>mqttTopic = ''t1'', mqttMessage = ''1'', qos = Some 0, retain = None\<rparr> = Rejected
   \<and> published (mq_drain (fails_on ''t1'')
        (exec [Add ''t1'' ''1'' None (Some False), Add ''t2'' ''2'' None (Some False)] (mq_constructor True)))
       = [\<lparr>mqttTopic = ''t1'', mqttMessage = ''1'', qos = Some 0, retain = None\<rparr>,
          \<lparr>mqttTopic = ''t2'', mqttMessage = ''2'', qos = Some 0, retain = None\<rparr>]
   \<and> delivered (mq_drain (fails_on ''t1'')
        (exec [Add ''t1'' ''1'' None (Some False), Add ''t2'' ''2'' None (Some False)] (mq_constructor True)))
       = [\<lparr>mqttTopic = ''t2'', mqttMessage = ''2'', qos = Some 0, retain = None\<rparr>]
   \<and> queue (mq_drain (fails_on ''t1'')
        (exec [Add ''t1'' ''1'' None (Some False), Add ''t2'' ''2'' None (Some False)] (mq_constructor True))) = []"
proof -
  let ?s = "exec [Add ''t1'' ''1'' None (Some False), Add ''t2'' ''2'' None (Some False)] (mq_constructor True)"
  have hyps: "running ?s" "registered ?s" "\<not> processing ?s"
    by (simp_all add: mq_defs)
  have vals: "published (mq_drain resolve_all ?s)
       = [\<lparr>mqttTopic = ''t1'', mqttMessage = ''1'', qos = Some 0, retain = None\<rparr>,
          \<lparr>mqttTopic = ''t2'', mqttMessage = ''2'', qos = Some 0, retain = None\<rparr>]"
    "published ?s = []" "delivered ?s = []"
    by (simp_all add: mq_defs)
  from C6_failed_publish [OF refl hyps, of "fails_on ''t1''"] hyps vals
  show ?thesis by (simp add: sent_def fails_on_def)
qed

subsection \<open>Reset\<close>

text \<open>
  C7, as the spec states it, would have every queue behave like a new one after
  \<^verbatim>\<open>clear\<close>. A queue that was stopped stays stopped: after \<^verbatim>\<open>stop\<close>, \<^verbatim>\<open>clear\<close>,
  \<^verbatim>\<open>add("x", "v")\<close> a drain publishes nothing, and on a new queue it publishes the
  message.
\<close>

theorem C7_stopped_queue_stays_silent:
  "published (mq_drain resolve_all
      (mq_add ''x'' ''v'' None None (mq_clear (mq_stop (mq_constructor True))))) = []
   \<and> published (mq_drain resolve_all (mq_add ''x'' ''v'' None None (mq_constructor True)))
      = [\<lparr>mqttTopic = ''x'', mqttMessage = ''v'', qos = Some 0, retain = None\<rparr>]"
  by (simp add: mq_defs)

text \<open>
  C7, amended: in every state reached from the constructor, \<^verbatim>\<open>clear\<close> empties the
  pending order and the live set and leaves the running flag, the reentrancy flag and a
  suspended drain as they are; the client's unregistered notification runs the
  \<^verbatim>\<open>clear\<close> that the constructor subscribed, so it empties both as well; if the queue
  is running, an \<^verbatim>\<open>add\<close> after \<^verbatim>\<open>clear\<close> and a drain followed to its end publish
  what they publish on a new queue with the same client, and end with the same pending
  order, live set and flags; if the queue is stopped, they publish nothing and the queue
  is still stopped.
\<close>

theorem C7_reset:
  assumes "s = exec evs (mq_constructor reg)"
  shows "queue (mq_clear s) = [] \<and> messages (mq_clear s) = Map.empty
    \<and> running (mq_clear s) = running s
    \<and> processing (mq_clear s) = processing s
    \<and> suspended (mq_clear s) = suspended s
    \<and> step s ClientUnRegistered = mq_clear (s\<lparr>registered := False\<rparr>)
    \<and> queue (step s ClientUnRegistered) = [] \<and> messages (step s ClientUnRegistered) = Map.empty
    \<and> (running s \<longrightarrow>
          sent s (mq_drain pub (mq_add t p opt proc (mq_clear s)))
            = published (mq_drain pub (mq_add t p opt proc (mq_constructor (registered s))))
        \<and> queue (mq_drain pub (mq_add t p opt proc (mq_clear s)))
            = queue (mq_drain pub (mq_add t p opt proc (mq_constructor (registered s))))
        \<and> messages (mq_drain pub (mq_add t p opt proc (mq_clear s)))
            = messages (mq_drain pub (mq_add t p opt proc (mq_constructor (registered s))))
        \<and> processing (mq_drain pub (mq_add t p opt proc (mq_clear s)))
            = processing (mq_drain pub (mq_add t p opt proc (mq_constructor (registered s))))
        \<and> running (mq_drain pub (mq_add t p opt proc (mq_clear s)))
            = running (mq_drain pub (mq_add t p opt proc (mq_constructor (registered s)))))
    \<and> (\<not> running s \<longrightarrow>
          sent s (mq_drain pub (mq_add t p opt proc (mq_clear s))) = []
        \<and> \<not> running (mq_drain pub (mq_add t p opt proc (mq_clear s))))"
proof -
  let ?x = "mq_clear s" and ?c = "mq_constructor (registered s)"
  have x: "loops_ok ?x" "queue ?x = []" "messages ?x = Map.empty" "published ?x = published s"
    "registered ?x = registered s" "running ?x = running s"
    using assms reachable_ok(1) [of evs reg] by (simp_all add: mq_clear_def loops_ok_def)
  have c: "loops_ok ?c" "running ?c" "queue ?c = []" "messages ?c = Map.empty" "published ?c = []"
    "registered ?c = registered s"
    by (simp_all add: mq_constructor_def subscribe_def loops_ok_def)
  have flags: "running (mq_clear s) = running s" "processing (mq_clear s) = processing s"
    "suspended (mq_clear s) = suspended s"
    by (simp_all add: mq_clear_def)
  have "onUnRegistered s = [QueueClear]" using assms reachable_callbacks by simp
  then have notified: "step s ClientUnRegistered = mq_clear (s\<lparr>registered := False\<rparr>)"
    by (simp add: unregistered_eq)
  have cleared: "queue (step s ClientUnRegistered) = []" "messages (step s ClientUnRegistered) = Map.empty"
    unfolding notified by (simp_all add: mq_clear_def)
  have same: "sent s (mq_drain pub (mq_add t p opt proc ?x)) = published (mq_drain pub (mq_add t p opt proc ?c))
      \<and> queue (mq_drain pub (mq_add t p opt proc ?x)) = queue (mq_drain pub (mq_add t p opt proc ?c))
      \<and> messages (mq_drain pub (mq_add t p opt proc ?x)) = messages (mq_drain pub (mq_add t p opt proc ?c))
      \<and> processing (mq_drain pub (mq_add t p opt proc ?x)) = processing (mq_drain pub (mq_add t p opt proc ?c))
      \<and> running (mq_drain pub (mq_add t p opt proc ?x)) = running (mq_drain pub (mq_add t p opt proc ?c))"
    if "running s"
  proof -
    from that x(6) have rx: "running ?x" by simp
    note dx = drain_one [OF x(1) rx x(2,3), of pub t p opt proc]
    note dc = drain_one [OF c(1-4), of pub t p opt proc]
    show ?thesis
      unfolding sent_def dx(1-3) dc(1-3) using dx(4,6) dc(4,6) x(4,5) c(5,6) by simp
  qed
  have silent: "sent s (mq_drain pub (mq_add t p opt proc ?x)) = []
      \<and> \<not> running (mq_drain pub (mq_add t p opt proc ?x))" if "\<not> running s"
  proof -
    let ?y = "mq_add t p opt proc ?x"
    from that x(6) have nx: "\<not> running ?x" by simp
    have ok: "loops_ok ?y" using x(1) by (rule add_loops_ok)
    have ny: "\<not> running ?y" using nx by (simp add: add_kept)
    then have "published (mq_drain pub ?y) = published ?y"
      using drain_not_running(1) [OF ok, of pub] by simp
    also have "\<dots> = published s" using add_stopped [OF nx] x(4) by simp
    finally have "sent s (mq_drain pub ?y) = []" by (simp add: sent_def)
    with ny show ?thesis by (simp add: drain_flag)
  qed
  from flags notified cleared same silent show ?thesis
    by (simp add: mq_clear_def)
qed

theorem C7_reset_witness:
  "running (exec [Add ''a'' ''1'' None None, Add ''b'' ''2'' None None] (mq_constructor True))
   \<and> processing (exec [Add ''a'' ''1'' None None, Add ''b'' ''2'' None None] (mq_constructor True))
   \<and> queue (exec [Add ''a'' ''1'' None None, Add ''b'' ''2'' None None] (mq_constructor True)) = [1]
   \<and> queue (mq_clear (exec [Add ''a'' ''1'' None None, Add ''b'' ''2'' None None] (mq_constructor True))) = []
   \<and> processing (mq_clear (exec [Add ''a'' ''1'' None None, Add ''b'' ''2'' None None] (mq_constructor True)))
   \<and> sent (exec [Add ''a'' ''1'' None None, Add ''b'' ''2'' None None] (mq_constructor True))
        (mq_drain resolve_all (mq_add ''x'' ''v'' None None
          (mq_clear (exec [Add ''a'' ''1'' None None, Add ''b'' ''2'' None None] (mq_constructor True)))))
      = [\<lparr>mqttTopic = ''x'', mqttMessage = ''v'', qos = Some 0, retain = None\<rparr>]
   \<and> \<not> running (exec [Add ''a'' ''1'' None None, Stop] (mq_constructor True))
   \<and> sent (exec [Add ''a'' ''1'' None None, Stop] (mq_constructor True))
        (mq_drain resolve_all (mq_add ''x'' ''v'' None None
          (mq_clear (exec [Add ''a'' ''1'' None None, Stop] (mq_constructor True))))) = []"
proof -
  let ?s = "exec [Add ''a'' ''1'' None None, Add ''b'' ''2'' None None] (mq_constructor True)"
  let ?u = "exec [Add ''a'' ''1'' None None, Stop] (mq_constructor True)"
  have facts: "running ?s" "processing ?s" "queue ?s = [1]" "registered ?s" "\<not> running ?u"
    by (simp_all add: mq_defs)
  have fresh: "published (mq_drain resolve_all (mq_add ''x'' ''v'' None None (mq_constructor True)))
      = [\<lparr>mqttTopic = ''x'', mqttMessage = ''v'', qos = Some 0, retain = None\<rparr>]"
    by (simp add: mq_defs)
  from C7_reset [OF refl, of "[Add ''a'' ''1'' None None, Add ''b'' ''2'' None None]" True
      resolve_all "''x''" "''v''" None None]
    C7_reset [OF refl, of "[Add ''a'' ''1'' None None, Stop]" True resolve_all "''x''" "''v''" None None]
    facts fresh
  show ?thesis by simp
qed

section \<open>Properties of the application lifecycle\<close>

lemma GetSubstitution_plain:
  "CHR ''$'' \<notin> set rep \<Longrightarrow> GetSubstitution matched before after rep = rep"
  by (induction matched before after rep rule: GetSubstitution.induct) auto

lemma replace_template:
  "replace ''{deviceId}/hub/status'' ''{deviceId}'' d
     = GetSubstitution ''{deviceId}'' [] ''/hub/status'' d @ ''/hub/status''"
  by (simp add: replace_def)

lemma birth_topic_plain:
  "CHR ''$'' \<notin> set (hub_deviceId h) \<Longrightarrow> mqttTopic (birth_message h) = hub_deviceId h @ ''/hub/status''"
  by (simp add: birth_message_def replace_template GetSubstitution_plain)

lemma will_topic_plain:
  "CHR ''$'' \<notin> set (hub_deviceId h) \<Longrightarrow> mqttTopic (will_message h) = hub_deviceId h @ ''/hub/status''"
  by (simp add: will_message_def replace_template GetSubstitution_plain)

lemma sendBirthMessage_eq: "hub_sendBirthMessage h = client_publish (birth_message h) h"
  by (simp add: hub_sendBirthMessage_def birth_message_def BIRTH_TOPIC_def BIRTH_MESSAGE_def Message_new_def)

lemma sendLastWillMessage_eq: "hub_sendLastWillMessage h = client_publish (will_message h) h"
  by (simp add: hub_sendLastWillMessage_def will_message_def WILL_TOPIC_def WILL_MESSAGE_def Message_new_def)

lemmas hub_defs = hub_stopCommands_def hub_startCommands_def hub_startBroadcasters_def
  hub_stopBroadcasters_def hub_stopCommunicationProtocol_def hub_startCommunicationProtocol_def
  hub_start_def hub_stop_def client_publish_def call_def hub_init_def no_settings_def acts_def
  sendBirthMessage_eq sendLastWillMessage_eq hub_deviceId_def

subsection \<open>Calls that act on dispatch components only\<close>

lemma cc_refl: "component_calls h h"
  by (simp add: component_calls_def)

lemma cc_trans: "component_calls h h' \<Longrightarrow> component_calls h' h'' \<Longrightarrow> component_calls h h''"
  by (auto simp add: component_calls_def)

lemma cc_call: "component_action a \<Longrightarrow> component_calls h (call a h)"
  by (simp add: component_calls_def call_def)

lemma cc_fields:
  assumes "component_calls h h'"
  shows "component_calls h (h'\<lparr>commandHandler := b\<rparr>)"
    and "component_calls h (h'\<lparr>homieDispatcher := b\<rparr>)"
    and "component_calls h (h'\<lparr>homeAssistantDispatcher := b\<rparr>)"
    and "component_calls h (h'\<lparr>systemStateDispatcher := b\<rparr>)"
    and "component_calls h (h'\<lparr>protocol := p\<rparr>)"
  using assms by (simp_all add: component_calls_def)

lemma cc_stopCommands: "component_calls h (hub_stopCommands h)"
  by (simp add: hub_stopCommands_def cc_refl cc_fields cc_call)

lemma cc_startCommands: "component_calls h (hub_startCommands h)"
proof -
  have "component_calls (hub_stopCommands h) (call (Create CommandHandler) (hub_stopCommands h))"
    by (rule cc_call) simp
  with cc_stopCommands have "component_calls h (call (Create CommandHandler) (hub_stopCommands h))"
    by (rule cc_trans)
  then show ?thesis unfolding hub_startCommands_def by (rule cc_fields)
qed

lemma cc_startBroadcasters: "component_calls h (hub_startBroadcasters h)"
  by (cases "homieDispatcher h"; cases "homeAssistantDispatcher h"; cases "systemStateDispatcher h")
    (simp_all add: hub_startBroadcasters_def component_calls_def call_def Let_def)


lemma cc_stopBroadcasters: "component_calls h (fst (hub_stopBroadcasters h))"
  by (cases "homieDispatcher h"; cases "homeAssistantDispatcher h"; cases "systemStateDispatcher h")
    (simp_all add: hub_stopBroadcasters_def component_calls_def call_def Let_def)

lemma cc_stopCommunicationProtocol: "component_calls h (hub_stopCommunicationProtocol p h)"
  by (cases "homieDispatcher h"; cases "homeAssistantDispatcher h")
    (simp_all add: hub_stopCommunicationProtocol_def component_calls_def call_def Let_def)

lemma startCommunicationProtocol_trace:
  shows "trace (fst (hub_startCommunicationProtocol reg p h))
     = trace h @ [Create HomieDispatcher, Create HomeAssistantDispatcher, Register HomeAssistantDispatcher]
         @ (case reg of Resolved \<Rightarrow> [Register HomieDispatcher] | Rejected \<Rightarrow> [])"
  and "messageQueue (fst (hub_startCommunicationProtocol reg p h)) = messageQueue h"
  and "settings (fst (hub_startCommunicationProtocol reg p h)) = settings h"
  and "commandHandler (fst (hub_startCommunicationProtocol reg p h)) = commandHandler h"
  and "homieDispatcher (fst (hub_startCommunicationProtocol reg p h))"
  and "homeAssistantDispatcher (fst (hub_startCommunicationProtocol reg p h))"
  by (cases reg; simp add: hub_startCommunicationProtocol_def call_def Let_def)+

lemma cc_startCommunicationProtocol: "component_calls h (fst (hub_startCommunicationProtocol reg p h))"
  by (cases reg) (simp_all add: component_calls_def startCommunicationProtocol_trace)

lemma stopCommunicationProtocol_fields:
  "commandHandler (hub_stopCommunicationProtocol p h) = commandHandler h"
  "protocol (hub_stopCommunicationProtocol p h) = protocol h"
  "systemStateDispatcher (hub_stopCommunicationProtocol p h) = systemStateDispatcher h"
  by (simp_all add: hub_stopCommunicationProtocol_def call_def Let_def)

lemma stopCommunicationProtocol_gone:
  "truthy (if truthy p then p else protocol h) \<Longrightarrow>
     \<not> homieDispatcher (hub_stopCommunicationProtocol p h)
     \<and> \<not> homeAssistantDispatcher (hub_stopCommunicationProtocol p h)"
  by (simp add: hub_stopCommunicationProtocol_def call_def Let_def)

lemma startBroadcasters_fields:
  "commandHandler (hub_startBroadcasters h) = commandHandler h"
  "protocol (hub_startBroadcasters h) = protocol h"
  by (simp_all add: hub_startBroadcasters_def call_def Let_def)

lemma startCommands_fields:
  "commandHandler (hub_startCommands h)"
  "protocol (hub_startCommands h) = protocol h"
  "\<exists>xs. trace (hub_startCommands h) = trace h @ xs @ [Create CommandHandler]"
  by (simp_all add: hub_startCommands_def hub_stopCommands_def call_def)

lemma stopCommands_fields:
  "\<not> commandHandler (hub_stopCommands h)"
  "protocol (hub_stopCommands h) = protocol h"
  "homieDispatcher (hub_stopCommands h) = homieDispatcher h"
  "homeAssistantDispatcher (hub_stopCommands h) = homeAssistantDispatcher h"
  "systemStateDispatcher (hub_stopCommands h) = systemStateDispatcher h"
  by (simp_all add: hub_stopCommands_def call_def)

lemma stopBroadcasters_fields:
  "commandHandler (fst (hub_stopBroadcasters h)) = commandHandler h"
  "protocol (fst (hub_stopBroadcasters h)) = protocol h"
  "homieDispatcher (fst (hub_stopBroadcasters h)) = homieDispatcher h"
  "homeAssistantDispatcher (fst (hub_stopBroadcasters h)) = homeAssistantDispatcher h"
  "snd (hub_stopBroadcasters h) = (if homeAssistantDispatcher h \<and> \<not> systemStateDispatcher h then Some TypeError else None)"
  "snd (hub_stopBroadcasters h) = None \<Longrightarrow> \<not> systemStateDispatcher (fst (hub_stopBroadcasters h))"
  by (simp_all add: hub_stopBroadcasters_def call_def Let_def)

subsection \<open>What each method records and what it leaves as it is\<close>

lemma connect_fields:
  "trace (client_connect conn h) = trace h @ [Connect]"
  "messageQueue (client_connect Resolved h) = client_registered (messageQueue h)"
  "messageQueue (client_connect Rejected h) = messageQueue h"
  "settings (client_connect conn h) = settings h"
  "protocol (client_connect conn h) = protocol h"
  "commandHandler (client_connect conn h) = commandHandler h"
  "homieDispatcher (client_connect conn h) = homieDispatcher h"
  "homeAssistantDispatcher (client_connect conn h) = homeAssistantDispatcher h"
  "systemStateDispatcher (client_connect conn h) = systemStateDispatcher h"
  by (cases conn; simp add: client_connect_def call_def)+

lemma disconnect_fields:
  "trace (client_disconnect h) = trace h @ [Disconnect]"
  "messageQueue (client_disconnect h) = client_unregistered (messageQueue h)"
  "settings (client_disconnect h) = settings h"
  "protocol (client_disconnect h) = protocol h"
  "commandHandler (client_disconnect h) = commandHandler h"
  "homieDispatcher (client_disconnect h) = homieDispatcher h"
  "homeAssistantDispatcher (client_disconnect h) = homeAssistantDispatcher h"
  "systemStateDispatcher (client_disconnect h) = systemStateDispatcher h"
  by (simp_all add: client_disconnect_def call_def)

lemma publish_fields:
  "trace (client_publish m h) = trace h @ [Publish m]"
  "messageQueue (client_publish m h) = (messageQueue h)\<lparr>published := published (messageQueue h) @ [m]\<rparr>"
  "settings (client_publish m h) = settings h"
  "protocol (client_publish m h) = protocol h"
  "commandHandler (client_publish m h) = commandHandler h"
  "homieDispatcher (client_publish m h) = homieDispatcher h"
  "homeAssistantDispatcher (client_publish m h) = homeAssistantDispatcher h"
  "systemStateDispatcher (client_publish m h) = systemStateDispatcher h"
  by (simp_all add: client_publish_def)

lemma stopCommands_exact:
  "trace (hub_stopCommands h) = trace h @ (if commandHandler h then [Destroy CommandHandler] else [])"
  "messageQueue (hub_stopCommands h) = messageQueue h"
  "settings (hub_stopCommands h) = settings h"
  by (simp_all add: hub_stopCommands_def call_def)

lemma startCommands_exact:
  "trace (hub_startCommands h)
     = trace h @ (if commandHandler h then [Destroy CommandHandler] else []) @ [Create CommandHandler]"
  "messageQueue (hub_startCommands h) = messageQueue h"
  "settings (hub_startCommands h) = settings h"
  "homieDispatcher (hub_startCommands h) = homieDispatcher h"
  "homeAssistantDispatcher (hub_startCommands h) = homeAssistantDispatcher h"
  "systemStateDispatcher (hub_startCommands h) = systemStateDispatcher h"
  by (simp_all add: hub_startCommands_def hub_stopCommands_def call_def)

lemma startBroadcasters_exact:
  "trace (hub_startBroadcasters h)
     = trace h
       @ (if homieDispatcher h
          then [SetBroadcast HomieDispatcher (broadcastDevices (settings h) \<noteq> Some False)] else [])
       @ (if homeAssistantDispatcher h
          then [SetBroadcast HomeAssistantDispatcher (broadcastDevices (settings h) \<noteq> Some False)] else [])
       @ (if \<not> systemStateDispatcher h \<and> broadcastSystemState (settings h) = Some True
          then [Create SystemStateDispatcher] else [])"
  "messageQueue (hub_startBroadcasters h) = messageQueue h"
  "settings (hub_startBroadcasters h) = settings h"
  "homieDispatcher (hub_startBroadcasters h) = homieDispatcher h"
  "homeAssistantDispatcher (hub_startBroadcasters h) = homeAssistantDispatcher h"
  "systemStateDispatcher (hub_startBroadcasters h)
     = (systemStateDispatcher h \<or> broadcastSystemState (settings h) = Some True)"
  by (cases "homieDispatcher h"; cases "homeAssistantDispatcher h"; cases "systemStateDispatcher h";
      simp add: hub_startBroadcasters_def call_def Let_def)+

lemma stopBroadcasters_exact:
  "trace (fst (hub_stopBroadcasters h))
     = trace h
       @ (if homieDispatcher h then [SetBroadcast HomieDispatcher False] else [])
       @ (if homeAssistantDispatcher h \<and> \<not> systemStateDispatcher h then []
          else (if homeAssistantDispatcher h then [SetBroadcast SystemStateDispatcher False] else [])
             @ (if systemStateDispatcher h then [Destroy SystemStateDispatcher] else []))"
  "messageQueue (fst (hub_stopBroadcasters h)) = messageQueue h"
  "settings (fst (hub_stopBroadcasters h)) = settings h"
  by (cases "homieDispatcher h"; cases "homeAssistantDispatcher h"; cases "systemStateDispatcher h";
      simp add: hub_stopBroadcasters_def call_def Let_def)+

lemma stopCommunicationProtocol_exact:
  "trace (hub_stopCommunicationProtocol p h)
     = trace h
       @ (if truthy (if truthy p then p else protocol h)
          then (if homieDispatcher h then [Destroy HomieDispatcher] else [])
             @ (if homeAssistantDispatcher h then [Destroy HomeAssistantDispatcher] else [])
          else [])"
  "messageQueue (hub_stopCommunicationProtocol p h) = messageQueue h"
  "settings (hub_stopCommunicationProtocol p h) = settings h"
  by (cases "homieDispatcher h"; cases "homeAssistantDispatcher h";
      simp add: hub_stopCommunicationProtocol_def call_def Let_def)+

lemma startCommunicationProtocol_exact:
  "protocol (fst (hub_startCommunicationProtocol reg p h)) = (if truthy p then p else protocol h)"
  "systemStateDispatcher (fst (hub_startCommunicationProtocol reg p h)) = systemStateDispatcher h"
  by (cases reg; simp add: hub_startCommunicationProtocol_def call_def Let_def)+

subsection \<open>The shape of start\<close>

lemma birth_message_cong: "settings h' = settings h \<Longrightarrow> birth_message h' = birth_message h"
  by (simp add: birth_message_def hub_deviceId_def)

lemma will_message_cong: "settings h' = settings h \<Longrightarrow> will_message h' = will_message h"
  by (simp add: will_message_def hub_deviceId_def)

lemma start_rejected: "hub_start Rejected reg h = call Connect h"
  by (simp add: hub_start_def client_connect_def)

lemma start_resolved:
  "hub_start Resolved reg h =
     (let h1 = hub_sendBirthMessage (client_connect Resolved h);
          h3 = hub_startBroadcasters (hub_startCommands h1);
          p = (if truthy (settings_protocol (settings h3)) then settings_protocol (settings h3)
               else Some ''homie3'')
      in if protocol h3 \<noteq> p then
           fst (hub_startCommunicationProtocol reg p (hub_stopCommunicationProtocol (protocol h3) h3))
         else h3)"
  by (simp add: hub_start_def Let_def)

lemma start_exact:
  fixes h reg
  defines "p \<equiv> if truthy (settings_protocol (settings h)) then settings_protocol (settings h)
                else Some ''homie3''"
  shows "trace (hub_start Resolved reg h)
      = trace h @ [Connect, Publish (birth_message h)]
        @ (if commandHandler h then [Destroy CommandHandler] else []) @ [Create CommandHandler]
        @ (if homieDispatcher h
           then [SetBroadcast HomieDispatcher (broadcastDevices (settings h) \<noteq> Some False)] else [])
        @ (if homeAssistantDispatcher h
           then [SetBroadcast HomeAssistantDispatcher (broadcastDevices (settings h) \<noteq> Some False)] else [])
        @ (if \<not> systemStateDispatcher h \<and> broadcastSystemState (settings h) = Some True
           then [Create SystemStateDispatcher] else [])
        @ (if protocol h \<noteq> p
           then (if truthy (protocol h)
                 then (if homieDispatcher h then [Destroy HomieDispatcher] else [])
                    @ (if homeAssistantDispatcher h then [Destroy HomeAssistantDispatcher] else [])
                 else [])
              @ [Create HomieDispatcher, Create HomeAssistantDispatcher, Register HomeAssistantDispatcher]
              @ (case reg of Resolved \<Rightarrow> [Register HomieDispatcher] | Rejected \<Rightarrow> [])
           else [])"
    and "messageQueue (hub_start Resolved reg h)
      = (client_registered (messageQueue h))\<lparr>published := published (messageQueue h) @ [birth_message h]\<rparr>"
    and "commandHandler (hub_start Resolved reg h)"
    and "systemStateDispatcher (hub_start Resolved reg h)
      = (systemStateDispatcher h \<or> broadcastSystemState (settings h) = Some True)"
    and "protocol (hub_start Resolved reg h) = p"
    and "protocol h \<noteq> p \<Longrightarrow>
      homieDispatcher (hub_start Resolved reg h) \<and> homeAssistantDispatcher (hub_start Resolved reg h)"
    and "protocol h = p \<Longrightarrow>
      homieDispatcher (hub_start Resolved reg h) = homieDispatcher h
      \<and> homeAssistantDispatcher (hub_start Resolved reg h) = homeAssistantDispatcher h"
proof -
  let ?h0 = "client_connect Resolved h"
  let ?h1 = "hub_sendBirthMessage ?h0"
  let ?h2 = "hub_startCommands ?h1"
  let ?h3 = "hub_startBroadcasters ?h2"
  let ?h4 = "hub_stopCommunicationProtocol (protocol h) ?h3"
  let ?h5 = "fst (hub_startCommunicationProtocol reg p ?h4)"
  have b: "birth_message ?h0 = birth_message h"
    by (rule birth_message_cong) (simp add: connect_fields)
  have h1: "trace ?h1 = trace h @ [Connect, Publish (birth_message h)]"
    "messageQueue ?h1
      = (client_registered (messageQueue h))\<lparr>published := published (messageQueue h) @ [birth_message h]\<rparr>"
    "settings ?h1 = settings h" "protocol ?h1 = protocol h" "commandHandler ?h1 = commandHandler h"
    "homieDispatcher ?h1 = homieDispatcher h" "homeAssistantDispatcher ?h1 = homeAssistantDispatcher h"
    "systemStateDispatcher ?h1 = systemStateDispatcher h"
    unfolding sendBirthMessage_eq b
    by (simp_all add: publish_fields connect_fields client_registered_def)
  have h2: "trace ?h2 = trace ?h1 @ (if commandHandler h then [Destroy CommandHandler] else [])
        @ [Create CommandHandler]"
    "messageQueue ?h2 = messageQueue ?h1" "settings ?h2 = settings h" "protocol ?h2 = protocol h"
    "commandHandler ?h2" "homieDispatcher ?h2 = homieDispatcher h"
    "homeAssistantDispatcher ?h2 = homeAssistantDispatcher h"
    "systemStateDispatcher ?h2 = systemStateDispatcher h"
    by (simp_all only: startCommands_exact startCommands_fields h1)
  have h3: "trace ?h3 = trace ?h2
        @ (if homieDispatcher h
           then [SetBroadcast HomieDispatcher (broadcastDevices (settings h) \<noteq> Some False)] else [])
        @ (if homeAssistantDispatcher h
           then [SetBroadcast HomeAssistantDispatcher (broadcastDevices (settings h) \<noteq> Some False)] else [])
        @ (if \<not> systemStateDispatcher h \<and> broadcastSystemState (settings h) = Some True
           then [Create SystemStateDispatcher] else [])"
    "messageQueue ?h3 = messageQueue ?h1" "settings ?h3 = settings h" "protocol ?h3 = protocol h"
    "commandHandler ?h3" "homieDispatcher ?h3 = homieDispatcher h"
    "homeAssistantDispatcher ?h3 = homeAssistantDispatcher h"
    "systemStateDispatcher ?h3 = (systemStateDispatcher h \<or> broadcastSystemState (settings h) = Some True)"
    by (simp_all only: startBroadcasters_exact startBroadcasters_fields h2)
  have h4: "trace ?h4 = trace ?h3
        @ (if truthy (protocol h)
           then (if homieDispatcher h then [Destroy HomieDispatcher] else [])
              @ (if homeAssistantDispatcher h then [Destroy HomeAssistantDispatcher] else [])
           else [])"
    "messageQueue ?h4 = messageQueue ?h1" "commandHandler ?h4"
    "systemStateDispatcher ?h4 = (systemStateDispatcher h \<or> broadcastSystemState (settings h) = Some True)"
    by (simp_all add: stopCommunicationProtocol_exact stopCommunicationProtocol_fields h3)
  have tp: "truthy p" unfolding p_def by simp
  have h5: "trace ?h5 = trace ?h4
        @ [Create HomieDispatcher, Create HomeAssistantDispatcher, Register HomeAssistantDispatcher]
        @ (case reg of Resolved \<Rightarrow> [Register HomieDispatcher] | Rejected \<Rightarrow> [])"
    "messageQueue ?h5 = messageQueue ?h1" "commandHandler ?h5"
    "systemStateDispatcher ?h5 = (systemStateDispatcher h \<or> broadcastSystemState (settings h) = Some True)"
    "protocol ?h5 = p" "homieDispatcher ?h5" "homeAssistantDispatcher ?h5"
    using tp by (simp_all add: startCommunicationProtocol_trace startCommunicationProtocol_exact h4)
  have s: "hub_start Resolved reg h = (if protocol h \<noteq> p then ?h5 else ?h3)"
    unfolding start_resolved Let_def h3(3,4) p_def ..
  show "trace (hub_start Resolved reg h)
      = trace h @ [Connect, Publish (birth_message h)]
        @ (if commandHandler h then [Destroy CommandHandler] else []) @ [Create CommandHandler]
        @ (if homieDispatcher h
           then [SetBroadcast HomieDispatcher (broadcastDevices (settings h) \<noteq> Some False)] else [])
        @ (if homeAssistantDispatcher h
           then [SetBroadcast HomeAssistantDispatcher (broadcastDevices (settings h) \<noteq> Some False)] else [])
        @ (if \<not> systemStateDispatcher h \<and> broadcastSystemState (settings h) = Some True
           then [Create SystemStateDispatcher] else [])
        @ (if protocol h \<noteq> p
           then (if truthy (protocol h)
                 then (if homieDispatcher h then [Destroy HomieDispatcher] else [])
                    @ (if homeAssistantDispatcher h then [Destroy HomeAssistantDispatcher] else [])
                 else [])
              @ [Create HomieDispatcher, Create HomeAssistantDispatcher, Register HomeAssistantDispatcher]
              @ (case reg of Resolved \<Rightarrow> [Register HomieDispatcher] | Rejected \<Rightarrow> [])
           else [])"
    by (cases "protocol h = p") (simp_all add: s h5(1) h4(1) h3(1) h2(1) h1(1))
  show "messageQueue (hub_start Resolved reg h)
      = (client_registered (messageQueue h))\<lparr>published := published (messageQueue h) @ [birth_message h]\<rparr>"
    by (cases "protocol h = p") (simp_all add: s h5(2) h3(2) h1(2))
  show "commandHandler (hub_start Resolved reg h)"
    by (cases "protocol h = p") (simp_all add: s h5(3) h3(5))
  show "systemStateDispatcher (hub_start Resolved reg h)
      = (systemStateDispatcher h \<or> broadcastSystemState (settings h) = Some True)"
    by (cases "protocol h = p") (simp_all add: s h5(4) h3(8))
  show "protocol (hub_start Resolved reg h) = p"
    by (cases "protocol h = p") (simp_all only: s h5(5) h3(4) simp_thms if_True if_False)
  show "homieDispatcher (hub_start Resolved reg h) \<and> homeAssistantDispatcher (hub_start Resolved reg h)"
    if "protocol h \<noteq> p"
    using that h5(6,7) by (simp add: s)
  show "homieDispatcher (hub_start Resolved reg h) = homieDispatcher h
      \<and> homeAssistantDispatcher (hub_start Resolved reg h) = homeAssistantDispatcher h"
    if "protocol h = p"
    using that h3(6,7) by (simp add: s)
qed

subsection \<open>The shape of stop\<close>

lemma unregistered_kept:
  "running (client_unregistered s) = running s"
  "registered (client_unregistered s) = False"
  "published (client_unregistered s) = published s"
  "processing (client_unregistered s) = processing s"
  by (simp_all add: unregistered_eq mq_clear_def)

lemma unregistered_cleared:
  "QueueClear \<in> set (onUnRegistered s) \<Longrightarrow>
     queue (client_unregistered s) = [] \<and> messages (client_unregistered s) = Map.empty"
  by (auto simp add: unregistered_eq mq_clear_def)

lemma stop_exact:
  shows "snd (hub_stop h)
      = (if homeAssistantDispatcher h \<and> \<not> systemStateDispatcher h then Some TypeError else None)"
    and "trace (fst (hub_stop h))
      = trace h @ [Publish (will_message h), Disconnect]
        @ (if commandHandler h then [Destroy CommandHandler] else [])
        @ (if homieDispatcher h then [SetBroadcast HomieDispatcher False] else [])
        @ (if homeAssistantDispatcher h \<and> \<not> systemStateDispatcher h then []
           else (if homeAssistantDispatcher h then [SetBroadcast SystemStateDispatcher False] else [])
              @ (if systemStateDispatcher h then [Destroy SystemStateDispatcher] else [])
              @ (if truthy (protocol h)
                 then (if homieDispatcher h then [Destroy HomieDispatcher] else [])
                    @ (if homeAssistantDispatcher h then [Destroy HomeAssistantDispatcher] else [])
                 else []))"
    and "messageQueue (fst (hub_stop h))
      = client_unregistered ((messageQueue h)\<lparr>published := published (messageQueue h) @ [will_message h]\<rparr>)"
    and "\<not> commandHandler (fst (hub_stop h))"
    and "homeAssistantDispatcher h \<longrightarrow> systemStateDispatcher h \<Longrightarrow>
      \<not> systemStateDispatcher (fst (hub_stop h)) \<and> protocol (fst (hub_stop h)) = None
      \<and> (truthy (protocol h) \<longrightarrow>
           \<not> homieDispatcher (fst (hub_stop h)) \<and> \<not> homeAssistantDispatcher (fst (hub_stop h)))"
proof -
  let ?h0 = "client_disconnect (hub_sendLastWillMessage h)"
  let ?h1 = "hub_stopCommands ?h0"
  let ?h2 = "fst (hub_stopBroadcasters ?h1)"
  let ?h3 = "(hub_stopCommunicationProtocol None ?h2)\<lparr>protocol := None\<rparr>"
  have h0: "trace ?h0 = trace h @ [Publish (will_message h), Disconnect]"
    "messageQueue ?h0
      = client_unregistered ((messageQueue h)\<lparr>published := published (messageQueue h) @ [will_message h]\<rparr>)"
    "protocol ?h0 = protocol h" "commandHandler ?h0 = commandHandler h"
    "homieDispatcher ?h0 = homieDispatcher h" "homeAssistantDispatcher ?h0 = homeAssistantDispatcher h"
    "systemStateDispatcher ?h0 = systemStateDispatcher h"
    unfolding sendLastWillMessage_eq by (simp_all add: disconnect_fields publish_fields)
  have h1: "trace ?h1 = trace ?h0 @ (if commandHandler h then [Destroy CommandHandler] else [])"
    "messageQueue ?h1 = messageQueue ?h0" "protocol ?h1 = protocol h" "\<not> commandHandler ?h1"
    "homieDispatcher ?h1 = homieDispatcher h" "homeAssistantDispatcher ?h1 = homeAssistantDispatcher h"
    "systemStateDispatcher ?h1 = systemStateDispatcher h"
    by (simp_all only: stopCommands_exact stopCommands_fields h0 not_False_eq_True)
  have h2: "trace ?h2 = trace ?h1
        @ (if homieDispatcher h then [SetBroadcast HomieDispatcher False] else [])
        @ (if homeAssistantDispatcher h \<and> \<not> systemStateDispatcher h then []
           else (if homeAssistantDispatcher h then [SetBroadcast SystemStateDispatcher False] else [])
              @ (if systemStateDispatcher h then [Destroy SystemStateDispatcher] else []))"
    "messageQueue ?h2 = messageQueue ?h0" "protocol ?h2 = protocol h" "\<not> commandHandler ?h2"
    "homieDispatcher ?h2 = homieDispatcher h" "homeAssistantDispatcher ?h2 = homeAssistantDispatcher h"
    "snd (hub_stopBroadcasters ?h1)
      = (if homeAssistantDispatcher h \<and> \<not> systemStateDispatcher h then Some TypeError else None)"
    by (simp_all only: stopBroadcasters_exact stopBroadcasters_fields h1 not_False_eq_True)
  have h3: "trace ?h3 = trace ?h2
        @ (if truthy (protocol h)
           then (if homieDispatcher h then [Destroy HomieDispatcher] else [])
              @ (if homeAssistantDispatcher h then [Destroy HomeAssistantDispatcher] else [])
           else [])"
    "messageQueue ?h3 = messageQueue ?h0" "\<not> commandHandler ?h3" "protocol ?h3 = None"
    by (simp_all add: stopCommunicationProtocol_exact stopCommunicationProtocol_fields h2)
  have s: "hub_stop h
      = (if homeAssistantDispatcher h \<and> \<not> systemStateDispatcher h then (?h2, Some TypeError)
         else (?h3, None))"
    unfolding hub_stop_def Let_def using h2(7)
    by (cases "hub_stopBroadcasters ?h1") (auto split: option.split)
  show "snd (hub_stop h)
      = (if homeAssistantDispatcher h \<and> \<not> systemStateDispatcher h then Some TypeError else None)"
    unfolding s by simp
  show "trace (fst (hub_stop h))
      = trace h @ [Publish (will_message h), Disconnect]
        @ (if commandHandler h then [Destroy CommandHandler] else [])
        @ (if homieDispatcher h then [SetBroadcast HomieDispatcher False] else [])
        @ (if homeAssistantDispatcher h \<and> \<not> systemStateDispatcher h then []
           else (if homeAssistantDispatcher h then [SetBroadcast SystemStateDispatcher False] else [])
              @ (if systemStateDispatcher h then [Destroy SystemStateDispatcher] else [])
              @ (if truthy (protocol h)
                 then (if homieDispatcher h then [Destroy HomieDispatcher] else [])
                    @ (if homeAssistantDispatcher h then [Destroy HomeAssistantDispatcher] else [])
                 else []))"
    by (cases "homeAssistantDispatcher h \<and> \<not> systemStateDispatcher h")
      (simp_all only: s simp_thms if_True if_False fst_conv h3(1) h2(1) h1(1) h0(1) append_assoc append_Nil2 append_Nil)
  show "messageQueue (fst (hub_stop h))
      = client_unregistered ((messageQueue h)\<lparr>published := published (messageQueue h) @ [will_message h]\<rparr>)"
    by (cases "homeAssistantDispatcher h \<and> \<not> systemStateDispatcher h")
      (simp_all only: s simp_thms if_True if_False fst_conv h3(2) h2(2) h0(2))
  show "\<not> commandHandler (fst (hub_stop h))"
    by (cases "homeAssistantDispatcher h \<and> \<not> systemStateDispatcher h")
      (simp_all only: s simp_thms if_True if_False fst_conv h3(3) h2(4))
  show "\<not> systemStateDispatcher (fst (hub_stop h)) \<and> protocol (fst (hub_stop h)) = None
      \<and> (truthy (protocol h) \<longrightarrow>
           \<not> homieDispatcher (fst (hub_stop h)) \<and> \<not> homeAssistantDispatcher (fst (hub_stop h)))"
    if ok: "homeAssistantDispatcher h \<longrightarrow> systemStateDispatcher h"
  proof -
    from ok have e: "hub_stop h = (?h3, None)" unfolding s by auto
    from ok h2(7) have none: "snd (hub_stopBroadcasters ?h1) = None" by auto
    have ss: "\<not> systemStateDispatcher ?h3"
      using stopBroadcasters_fields(6) [OF none] by (simp add: stopCommunicationProtocol_fields)
    have gone: "\<not> homieDispatcher ?h3 \<and> \<not> homeAssistantDispatcher ?h3" if "truthy (protocol h)"
    proof -
      from that have "truthy (if truthy None then None else protocol ?h2)" by (simp add: h2(3))
      from stopCommunicationProtocol_gone [OF this] show ?thesis by simp
    qed
    show ?thesis unfolding e using ss gone h3(4) by simp
  qed
qed

section \<open>The claims about the lifecycle\<close>

subsection \<open>Start\<close>

text \<open>
  C8, as the spec states it, would have \<^verbatim>\<open>start\<close> resume the draining of the queue.
  \<^verbatim>\<open>start\<close> makes no call on the queue: one that was stopped with an entry pending is
  still stopped afterwards, the entry is still pending, and the birth message is all that
  was published.
\<close>

theorem C8_queue_not_resumed:
  "running (messageQueue (hub_start Resolved Resolved
      (hub_init no_settings (mq_stop (mq_add ''x'' ''v'' None (Some False) (mq_constructor True)))))) = False
   \<and> queue (messageQueue (hub_start Resolved Resolved
      (hub_init no_settings (mq_stop (mq_add ''x'' ''v'' None (Some False) (mq_constructor True)))))) = [0]
   \<and> published (messageQueue (hub_start Resolved Resolved
      (hub_init no_settings (mq_stop (mq_add ''x'' ''v'' None (Some False) (mq_constructor True))))))
      = [\<lparr>mqttTopic = ''Homey/hub/status'', mqttMessage = ''online'', qos = Some 1, retain = Some True\<rparr>]"
  by (simp add: hub_defs client_connect_def client_registered_def birth_message_def replace_template
      mq_defs Let_def)

text \<open>
  C8, amended: when \<^verbatim>\<open>connect\<close> fails, \<^verbatim>\<open>start\<close> does nothing more. When it
  succeeds, the client is registered and the first thing \<^verbatim>\<open>start\<close> does is to publish
  the birth message: payload \<open>online\<close>, qos 1, retain true, and the topic
  \<open>{deviceId}/hub/status\<close> with the device id put in once (as it is, when it has no dollar
  sign). Everything after that is an action on a dispatch component, in this order: the
  command handler is replaced by a new one; the broadcast flag of the Homie and the Home
  Assistant dispatcher is set from the settings, if they exist; the system state
  dispatcher is created if the settings ask for it and there is none; and if the
  protocol the settings ask for is not the running one, the dispatchers of the running
  protocol are destroyed and a new Homie and a new Home Assistant dispatcher are created
  and registered. \<^verbatim>\<open>start\<close> itself makes no call on the queue: its pending order, live
  set, running flag and reentrancy flag are as before, so a queue that was stopped stays
  stopped. (What the dispatch components do with the queue once they
  exist is their code, not that of \<^verbatim>\<open>start\<close>.)
\<close>

theorem C8_start:
  "hub_start Rejected reg h = call Connect h
   \<and> acts h (hub_start Resolved reg h)
       = [Connect, Publish (birth_message h)]
         @ (if commandHandler h then [Destroy CommandHandler] else []) @ [Create CommandHandler]
         @ (if homieDispatcher h
            then [SetBroadcast HomieDispatcher (broadcastDevices (settings h) \<noteq> Some False)] else [])
         @ (if homeAssistantDispatcher h
            then [SetBroadcast HomeAssistantDispatcher (broadcastDevices (settings h) \<noteq> Some False)] else [])
         @ (if \<not> systemStateDispatcher h \<and> broadcastSystemState (settings h) = Some True
            then [Create SystemStateDispatcher] else [])
         @ (if protocol h \<noteq> configured_protocol h
            then (if truthy (protocol h)
                  then (if homieDispatcher h then [Destroy HomieDispatcher] else [])
                     @ (if homeAssistantDispatcher h then [Destroy HomeAssistantDispatcher] else [])
                  else [])
               @ [Create HomieDispatcher, Create HomeAssistantDispatcher, Register HomeAssistantDispatcher]
               @ (case reg of Resolved \<Rightarrow> [Register HomieDispatcher] | Rejected \<Rightarrow> [])
            else [])
   \<and> take 2 (acts h (hub_start Resolved reg h)) = [Connect, Publish (birth_message h)]
   \<and> list_all component_action (drop 2 (acts h (hub_start Resolved reg h)))
   \<and> Create CommandHandler \<in> set (drop 2 (acts h (hub_start Resolved reg h)))
   \<and> commandHandler (hub_start Resolved reg h)
   \<and> systemStateDispatcher (hub_start Resolved reg h)
       = (systemStateDispatcher h \<or> broadcastSystemState (settings h) = Some True)
   \<and> protocol (hub_start Resolved reg h) = configured_protocol h
   \<and> (protocol h \<noteq> configured_protocol h \<longrightarrow>
        Create HomieDispatcher \<in> set (drop 2 (acts h (hub_start Resolved reg h)))
        \<and> Create HomeAssistantDispatcher \<in> set (drop 2 (acts h (hub_start Resolved reg h)))
        \<and> homieDispatcher (hub_start Resolved reg h)
        \<and> homeAssistantDispatcher (hub_start Resolved reg h))
   \<and> (protocol h = configured_protocol h \<longrightarrow>
        homieDispatcher (hub_start Resolved reg h) = homieDispatcher h
        \<and> homeAssistantDispatcher (hub_start Resolved reg h) = homeAssistantDispatcher h)
   \<and> mqttMessage (birth_message h) = ''online''
   \<and> qos (birth_message h) = Some 1 \<and> retain (birth_message h) = Some True
   \<and> (CHR ''$'' \<notin> set (hub_deviceId h) \<longrightarrow>
        mqttTopic (birth_message h) = hub_deviceId h @ ''/hub/status'')
   \<and> messageQueue (hub_start Resolved reg h)
       = (messageQueue h)\<lparr>registered := True,
           published := published (messageQueue h) @ [birth_message h]\<rparr>
   \<and> queue (messageQueue (hub_start Resolved reg h)) = queue (messageQueue h)
   \<and> messages (messageQueue (hub_start Resolved reg h)) = messages (messageQueue h)
   \<and> running (messageQueue (hub_start Resolved reg h)) = running (messageQueue h)
   \<and> processing (messageQueue (hub_start Resolved reg h)) = processing (messageQueue h)"
proof -
  let ?h' = "hub_start Resolved reg h"
  let ?rest = "(if commandHandler h then [Destroy CommandHandler] else []) @ [Create CommandHandler]
         @ (if homieDispatcher h
            then [SetBroadcast HomieDispatcher (broadcastDevices (settings h) \<noteq> Some False)] else [])
         @ (if homeAssistantDispatcher h
            then [SetBroadcast HomeAssistantDispatcher (broadcastDevices (settings h) \<noteq> Some False)] else [])
         @ (if \<not> systemStateDispatcher h \<and> broadcastSystemState (settings h) = Some True
            then [Create SystemStateDispatcher] else [])
         @ (if protocol h \<noteq> configured_protocol h
            then (if truthy (protocol h)
                  then (if homieDispatcher h then [Destroy HomieDispatcher] else [])
                     @ (if homeAssistantDispatcher h then [Destroy HomeAssistantDispatcher] else [])
                  else [])
               @ [Create HomieDispatcher, Create HomeAssistantDispatcher, Register HomeAssistantDispatcher]
               @ (case reg of Resolved \<Rightarrow> [Register HomieDispatcher] | Rejected \<Rightarrow> [])
            else [])"
  note ex = start_exact [where h = h and reg = reg, folded configured_protocol_def]
  have acts: "acts h ?h' = [Connect, Publish (birth_message h)] @ ?rest"
    unfolding acts_def ex(1) by simp
  have drop: "drop 2 (acts h ?h') = ?rest" and take: "take 2 (acts h ?h') = [Connect, Publish (birth_message h)]"
    unfolding acts by (simp_all add: numeral_2_eq_2)
  have comp: "list_all component_action ?rest"
    by (cases reg) simp_all
  have cmd: "Create CommandHandler \<in> set ?rest" by simp
  have disp: "Create HomieDispatcher \<in> set ?rest \<and> Create HomeAssistantDispatcher \<in> set ?rest"
    if "protocol h \<noteq> configured_protocol h"
    using that by simp
  have mq: "messageQueue ?h' = (messageQueue h)\<lparr>registered := True,
           published := published (messageQueue h) @ [birth_message h]\<rparr>"
    unfolding ex(2) by (simp add: client_registered_def)
  have birth: "mqttMessage (birth_message h) = ''online'' \<and> qos (birth_message h) = Some 1
      \<and> retain (birth_message h) = Some True"
    by (simp add: birth_message_def)
  show ?thesis
    unfolding drop take
    using start_rejected [of reg h] acts comp cmd disp ex(3-7) birth birth_topic_plain [of h]
    by (simp add: mq)
qed


theorem C8_start_witness:
  "CHR ''$'' \<notin> set (hub_deviceId (hub_init (no_settings\<lparr>deviceId := Some ''hub1''\<rparr>) (mq_constructor True)))
   \<and> protocol (hub_init (no_settings\<lparr>deviceId := Some ''hub1''\<rparr>) (mq_constructor True)) \<noteq> configured_protocol (hub_init (no_settings\<lparr>deviceId := Some ''hub1''\<rparr>) (mq_constructor True))
   \<and> acts (hub_init (no_settings\<lparr>deviceId := Some ''hub1''\<rparr>) (mq_constructor True)) (hub_start Resolved Resolved (hub_init (no_settings\<lparr>deviceId := Some ''hub1''\<rparr>) (mq_constructor True)))
       = [Connect, Publish \<lparr>mqttTopic = ''hub1/hub/status'', mqttMessage = ''online'', qos = Some 1, retain = Some True\<rparr>,
          Create CommandHandler, Create HomieDispatcher, Create HomeAssistantDispatcher,
          Register HomeAssistantDispatcher, Register HomieDispatcher]
   \<and> homieDispatcher (hub_start Resolved Resolved (hub_init (no_settings\<lparr>deviceId := Some ''hub1''\<rparr>) (mq_constructor True)))
   \<and> registered (messageQueue (hub_start Resolved Resolved (hub_init (no_settings\<lparr>deviceId := Some ''hub1''\<rparr>) (mq_constructor True))))
   \<and> protocol (hub_start Resolved Resolved (hub_init (no_settings\<lparr>deviceId := Some ''hub1''\<rparr>) (mq_constructor True))) = configured_protocol (hub_start Resolved Resolved (hub_init (no_settings\<lparr>deviceId := Some ''hub1''\<rparr>) (mq_constructor True)))
   \<and> acts (hub_start Resolved Resolved (hub_init (no_settings\<lparr>deviceId := Some ''hub1''\<rparr>) (mq_constructor True))) (hub_start Resolved Resolved (hub_start Resolved Resolved (hub_init (no_settings\<lparr>deviceId := Some ''hub1''\<rparr>) (mq_constructor True))))
       = [Connect, Publish \<lparr>mqttTopic = ''hub1/hub/status'', mqttMessage = ''online'', qos = Some 1, retain = Some True\<rparr>,
          Destroy CommandHandler, Create CommandHandler,
          SetBroadcast HomieDispatcher True, SetBroadcast HomeAssistantDispatcher True]
   \<and> homieDispatcher (hub_start Resolved Resolved (hub_start Resolved Resolved (hub_init (no_settings\<lparr>deviceId := Some ''hub1''\<rparr>) (mq_constructor True))))
   \<and> protocol ((hub_start Resolved Resolved (hub_init (no_settings\<lparr>deviceId := Some ''hub1''\<rparr>) (mq_constructor True)))\<lparr>settings := no_settings\<lparr>deviceId := Some ''hub1'', settings_protocol := Some ''ha'', broadcastDevices := Some False, broadcastSystemState := Some True\<rparr>\<rparr>) \<noteq> configured_protocol ((hub_start Resolved Resolved (hub_init (no_settings\<lparr>deviceId := Some ''hub1''\<rparr>) (mq_constructor True)))\<lparr>settings := no_settings\<lparr>deviceId := Some ''hub1'', settings_protocol := Some ''ha'', broadcastDevices := Some False, broadcastSystemState := Some True\<rparr>\<rparr>)
   \<and> acts ((hub_start Resolved Resolved (hub_init (no_settings\<lparr>deviceId := Some ''hub1''\<rparr>) (mq_constructor True)))\<lparr>settings := no_settings\<lparr>deviceId := Some ''hub1'', settings_protocol := Some ''ha'', broadcastDevices := Some False, broadcastSystemState := Some True\<rparr>\<rparr>) (hub_start Resolved Resolved ((hub_start Resolved Resolved (hub_init (no_settings\<lparr>deviceId := Some ''hub1''\<rparr>) (mq_constructor True)))\<lparr>settings := no_settings\<lparr>deviceId := Some ''hub1'', settings_protocol := Some ''ha'', broadcastDevices := Some False, broadcastSystemState := Some True\<rparr>\<rparr>))
       = [Connect, Publish \<lparr>mqttTopic = ''hub1/hub/status'', mqttMessage = ''online'', qos = Some 1, retain = Some True\<rparr>,
          Destroy CommandHandler, Create CommandHandler,
          SetBroadcast HomieDispatcher False, SetBroadcast HomeAssistantDispatcher False,
          Create SystemStateDispatcher,
          Destroy HomieDispatcher, Destroy HomeAssistantDispatcher,
          Create HomieDispatcher, Create HomeAssistantDispatcher,
          Register HomeAssistantDispatcher, Register HomieDispatcher]
   \<and> protocol (hub_start Resolved Resolved ((hub_start Resolved Resolved (hub_init (no_settings\<lparr>deviceId := Some ''hub1''\<rparr>) (mq_constructor True)))\<lparr>settings := no_settings\<lparr>deviceId := Some ''hub1'', settings_protocol := Some ''ha'', broadcastDevices := Some False, broadcastSystemState := Some True\<rparr>\<rparr>)) = Some ''ha''"
proof -
  let ?h0 = "hub_init (no_settings\<lparr>deviceId := Some ''hub1''\<rparr>) (mq_constructor True)"
  let ?h1 = "hub_start Resolved Resolved ?h0"
  let ?h2 = "?h1\<lparr>settings := no_settings\<lparr>deviceId := Some ''hub1'', settings_protocol := Some ''ha'',
      broadcastDevices := Some False, broadcastSystemState := Some True\<rparr>\<rparr>"
  have h1: "?h1 = \<lparr>settings = no_settings\<lparr>deviceId := Some ''hub1''\<rparr>, protocol = Some ''homie3'',
      commandHandler = True, homieDispatcher = True, homeAssistantDispatcher = True,
      systemStateDispatcher = False,
      messageQueue = (mq_constructor True)\<lparr>published :=
        [\<lparr>mqttTopic = ''hub1/hub/status'', mqttMessage = ''online'', qos = Some 1, retain = Some True\<rparr>]\<rparr>,
      trace = [Connect,
          Publish \<lparr>mqttTopic = ''hub1/hub/status'', mqttMessage = ''online'', qos = Some 1, retain = Some True\<rparr>,
          Create CommandHandler, Create HomieDispatcher, Create HomeAssistantDispatcher,
          Register HomeAssistantDispatcher, Register HomieDispatcher]\<rparr>"
    by (simp add: hub_defs client_connect_def client_registered_def birth_message_def replace_template
        mq_constructor_def subscribe_def Let_def)
  have f0: "CHR ''$'' \<notin> set (hub_deviceId ?h0)" "protocol ?h0 \<noteq> configured_protocol ?h0"
    by (simp_all add: hub_init_def no_settings_def hub_deviceId_def configured_protocol_def)
  have a0: "acts ?h0 ?h1 = [Connect,
          Publish \<lparr>mqttTopic = ''hub1/hub/status'', mqttMessage = ''online'', qos = Some 1, retain = Some True\<rparr>,
          Create CommandHandler, Create HomieDispatcher, Create HomeAssistantDispatcher,
          Register HomeAssistantDispatcher, Register HomieDispatcher]"
    unfolding h1 by (simp add: acts_def hub_init_def)
  have f1: "protocol ?h1 = configured_protocol ?h1"
    unfolding h1 by (simp add: configured_protocol_def no_settings_def)
  have a1: "acts ?h1 (hub_start Resolved Resolved ?h1) = [Connect,
          Publish \<lparr>mqttTopic = ''hub1/hub/status'', mqttMessage = ''online'', qos = Some 1, retain = Some True\<rparr>,
          Destroy CommandHandler, Create CommandHandler,
          SetBroadcast HomieDispatcher True, SetBroadcast HomeAssistantDispatcher True]"
    unfolding h1
    by (simp add: hub_defs client_connect_def client_registered_def birth_message_def replace_template Let_def)
  have f2: "protocol ?h2 \<noteq> configured_protocol ?h2"
    unfolding h1 by (simp add: configured_protocol_def no_settings_def)
  have a2: "acts ?h2 (hub_start Resolved Resolved ?h2) = [Connect,
          Publish \<lparr>mqttTopic = ''hub1/hub/status'', mqttMessage = ''online'', qos = Some 1, retain = Some True\<rparr>,
          Destroy CommandHandler, Create CommandHandler,
          SetBroadcast HomieDispatcher False, SetBroadcast HomeAssistantDispatcher False,
          Create SystemStateDispatcher,
          Destroy HomieDispatcher, Destroy HomeAssistantDispatcher,
          Create HomieDispatcher, Create HomeAssistantDispatcher,
          Register HomeAssistantDispatcher, Register HomieDispatcher]"
    unfolding h1
    by (simp add: hub_defs client_connect_def client_registered_def birth_message_def replace_template Let_def)
  have p2: "configured_protocol ?h2 = Some ''ha''"
    by (simp add: configured_protocol_def no_settings_def)
  from C8_start [of Resolved ?h0] C8_start [of Resolved ?h1] C8_start [of Resolved ?h2]
    f0 f1 f2 a0 a1 a2 p2
  show ?thesis by simp
qed

subsection \<open>Stop\<close>

text \<open>
  C9, as the spec states it, would have \<^verbatim>\<open>stop\<close> stop the dispatch components, then
  disconnect, and call \<^verbatim>\<open>MessageQueue.stop()\<close>. After a start with the system state
  broadcast on, \<^verbatim>\<open>stop\<close> disconnects right after the last-will message and before it
  stops any component, and the queue is still running afterwards.
\<close>

theorem C9_disconnect_before_components:
  "acts (hub_start Resolved Resolved (hub_init (no_settings\<lparr>broadcastSystemState := Some True\<rparr>) (mq_constructor True)))
     (fst (hub_stop
       (hub_start Resolved Resolved (hub_init (no_settings\<lparr>broadcastSystemState := Some True\<rparr>) (mq_constructor True)))))
     = [Publish \<lparr>mqttTopic = ''Homey/hub/status'', mqttMessage = ''offline'', qos = Some 1, retain = Some True\<rparr>,
        Disconnect, Destroy CommandHandler, SetBroadcast HomieDispatcher False,
        SetBroadcast SystemStateDispatcher False, Destroy SystemStateDispatcher,
        Destroy HomieDispatcher, Destroy HomeAssistantDispatcher]
   \<and> running (messageQueue (fst (hub_stop
       (hub_start Resolved Resolved (hub_init (no_settings\<lparr>broadcastSystemState := Some True\<rparr>) (mq_constructor True))))))
     = True"
proof -
  let ?h = "hub_start Resolved Resolved (hub_init (no_settings\<lparr>broadcastSystemState := Some True\<rparr>) (mq_constructor True))"
  have h: "?h = \<lparr>settings = no_settings\<lparr>broadcastSystemState := Some True\<rparr>, protocol = Some ''homie3'',
      commandHandler = True, homieDispatcher = True, homeAssistantDispatcher = True,
      systemStateDispatcher = True,
      messageQueue = (mq_constructor True)\<lparr>published :=
        [\<lparr>mqttTopic = ''Homey/hub/status'', mqttMessage = ''online'', qos = Some 1, retain = Some True\<rparr>]\<rparr>,
      trace = [Connect,
          Publish \<lparr>mqttTopic = ''Homey/hub/status'', mqttMessage = ''online'', qos = Some 1, retain = Some True\<rparr>,
          Create CommandHandler, Create SystemStateDispatcher,
          Create HomieDispatcher, Create HomeAssistantDispatcher,
          Register HomeAssistantDispatcher, Register HomieDispatcher]\<rparr>"
    by (simp add: hub_defs client_connect_def client_registered_def birth_message_def replace_template
        mq_constructor_def subscribe_def Let_def)
  show ?thesis
    unfolding h
    by (simp add: hub_defs client_disconnect_def unregistered_eq mq_clear_def will_message_def
        replace_template mq_constructor_def subscribe_def Let_def)
qed

text \<open>
  C9, amended: \<^verbatim>\<open>stop\<close> first publishes the last-will message (the topic of the birth
  message, payload \<open>offline\<close>, qos 1, retain true), then disconnects the client, and all
  it does after that are actions on dispatch components. The command handler is destroyed
  and the broadcast flag of the Homie dispatcher cleared, if they exist. If there is a
  system state dispatcher or no Home Assistant dispatcher, \<^verbatim>\<open>stop\<close> goes on without an
  error: with a Home Assistant dispatcher the broadcast flag of the system state
  dispatcher is cleared, the system state dispatcher is destroyed, the dispatchers of a
  running protocol are destroyed, and no protocol is running afterwards. \<^verbatim>\<open>stop\<close> does
  not call \<^verbatim>\<open>MessageQueue.stop()\<close>: the running flag of the queue is as before. What
  the queue sees is the disconnection: the client is no longer registered, and the
  unregistered notification runs the callbacks subscribed to it, so a queue whose
  constructor subscribed \<^verbatim>\<open>clear\<close> has no pending entry and no live topic left.
\<close>

theorem C9_stop:
  "take 2 (acts h (fst (hub_stop h))) = [Publish (will_message h), Disconnect]
   \<and> list_all component_action (drop 2 (acts h (fst (hub_stop h))))
   \<and> mqttMessage (will_message h) = ''offline''
   \<and> qos (will_message h) = Some 1 \<and> retain (will_message h) = Some True
   \<and> mqttTopic (will_message h) = mqttTopic (birth_message h)
   \<and> \<not> commandHandler (fst (hub_stop h))
   \<and> (commandHandler h \<longrightarrow> Destroy CommandHandler \<in> set (drop 2 (acts h (fst (hub_stop h)))))
   \<and> (homieDispatcher h \<longrightarrow>
        SetBroadcast HomieDispatcher False \<in> set (drop 2 (acts h (fst (hub_stop h)))))
   \<and> messageQueue (fst (hub_stop h))
       = client_unregistered
           ((messageQueue h)\<lparr>published := published (messageQueue h) @ [will_message h]\<rparr>)
   \<and> running (messageQueue (fst (hub_stop h))) = running (messageQueue h)
   \<and> processing (messageQueue (fst (hub_stop h))) = processing (messageQueue h)
   \<and> \<not> registered (messageQueue (fst (hub_stop h)))
   \<and> published (messageQueue (fst (hub_stop h))) = published (messageQueue h) @ [will_message h]
   \<and> (QueueClear \<in> set (onUnRegistered (messageQueue h)) \<longrightarrow>
        queue (messageQueue (fst (hub_stop h))) = []
        \<and> messages (messageQueue (fst (hub_stop h))) = Map.empty)
   \<and> ((homeAssistantDispatcher h \<longrightarrow> systemStateDispatcher h) \<longrightarrow>
        snd (hub_stop h) = None
        \<and> acts h (fst (hub_stop h))
            = [Publish (will_message h), Disconnect]
              @ (if commandHandler h then [Destroy CommandHandler] else [])
              @ (if homieDispatcher h then [SetBroadcast HomieDispatcher False] else [])
              @ (if homeAssistantDispatcher h then [SetBroadcast SystemStateDispatcher False] else [])
              @ (if systemStateDispatcher h then [Destroy SystemStateDispatcher] else [])
              @ (if truthy (protocol h)
                 then (if homieDispatcher h then [Destroy HomieDispatcher] else [])
                    @ (if homeAssistantDispatcher h then [Destroy HomeAssistantDispatcher] else [])
                 else [])
        \<and> \<not> systemStateDispatcher (fst (hub_stop h))
        \<and> protocol (fst (hub_stop h)) = None
        \<and> (truthy (protocol h) \<longrightarrow>
             \<not> homieDispatcher (fst (hub_stop h)) \<and> \<not> homeAssistantDispatcher (fst (hub_stop h))))"
proof -
  let ?h' = "fst (hub_stop h)"
  let ?q = "(messageQueue h)\<lparr>published := published (messageQueue h) @ [will_message h]\<rparr>"
  let ?rest = "(if commandHandler h then [Destroy CommandHandler] else [])
        @ (if homieDispatcher h then [SetBroadcast HomieDispatcher False] else [])
        @ (if homeAssistantDispatcher h \<and> \<not> systemStateDispatcher h then []
           else (if homeAssistantDispatcher h then [SetBroadcast SystemStateDispatcher False] else [])
              @ (if systemStateDispatcher h then [Destroy SystemStateDispatcher] else [])
              @ (if truthy (protocol h)
                 then (if homieDispatcher h then [Destroy HomieDispatcher] else [])
                    @ (if homeAssistantDispatcher h then [Destroy HomeAssistantDispatcher] else [])
                 else []))"
  note ex = stop_exact [of h]
  have acts: "acts h ?h' = [Publish (will_message h), Disconnect] @ ?rest"
    unfolding acts_def ex(2) by simp
  have drop: "drop 2 (acts h ?h') = ?rest"
    and take: "take 2 (acts h ?h') = [Publish (will_message h), Disconnect]"
    unfolding acts by (simp_all add: numeral_2_eq_2)
  have comp: "list_all component_action ?rest" by simp
  have cmd: "commandHandler h \<longrightarrow> Destroy CommandHandler \<in> set ?rest" by simp
  have hom: "homieDispatcher h \<longrightarrow> SetBroadcast HomieDispatcher False \<in> set ?rest" by simp
  have will: "mqttMessage (will_message h) = ''offline'' \<and> qos (will_message h) = Some 1
      \<and> retain (will_message h) = Some True \<and> mqttTopic (will_message h) = mqttTopic (birth_message h)"
    by (simp add: will_message_def birth_message_def)
  have q: "running (messageQueue ?h') = running (messageQueue h)"
      "processing (messageQueue ?h') = processing (messageQueue h)"
      "\<not> registered (messageQueue ?h')"
      "published (messageQueue ?h') = published (messageQueue h) @ [will_message h]"
    unfolding ex(3) by (simp_all add: unregistered_kept)
  have cl: "queue (messageQueue ?h') = [] \<and> messages (messageQueue ?h') = Map.empty"
    if "QueueClear \<in> set (onUnRegistered (messageQueue h))"
    unfolding ex(3) using that by (intro unregistered_cleared) simp
  have full: "snd (hub_stop h) = None
        \<and> acts h ?h'
            = [Publish (will_message h), Disconnect]
              @ (if commandHandler h then [Destroy CommandHandler] else [])
              @ (if homieDispatcher h then [SetBroadcast HomieDispatcher False] else [])
              @ (if homeAssistantDispatcher h then [SetBroadcast SystemStateDispatcher False] else [])
              @ (if systemStateDispatcher h then [Destroy SystemStateDispatcher] else [])
              @ (if truthy (protocol h)
                 then (if homieDispatcher h then [Destroy HomieDispatcher] else [])
                    @ (if homeAssistantDispatcher h then [Destroy HomeAssistantDispatcher] else [])
                 else [])
        \<and> \<not> systemStateDispatcher ?h'
        \<and> protocol ?h' = None
        \<and> (truthy (protocol h) \<longrightarrow> \<not> homieDispatcher ?h' \<and> \<not> homeAssistantDispatcher ?h')"
    if ok: "homeAssistantDispatcher h \<longrightarrow> systemStateDispatcher h"
  proof -
    from ok have no: "\<not> (homeAssistantDispatcher h \<and> \<not> systemStateDispatcher h)" by blast
    have 1: "snd (hub_stop h) = None" unfolding ex(1) using no by simp
    have 2: "acts h ?h'
            = [Publish (will_message h), Disconnect]
              @ (if commandHandler h then [Destroy CommandHandler] else [])
              @ (if homieDispatcher h then [SetBroadcast HomieDispatcher False] else [])
              @ (if homeAssistantDispatcher h then [SetBroadcast SystemStateDispatcher False] else [])
              @ (if systemStateDispatcher h then [Destroy SystemStateDispatcher] else [])
              @ (if truthy (protocol h)
                 then (if homieDispatcher h then [Destroy HomieDispatcher] else [])
                    @ (if homeAssistantDispatcher h then [Destroy HomeAssistantDispatcher] else [])
                 else [])"
      unfolding acts using no by simp
    from 1 2 ex(5) [OF ok] show ?thesis by blast
  qed
  have main: "take 2 (acts h ?h') = [Publish (will_message h), Disconnect]
      \<and> list_all component_action (drop 2 (acts h ?h'))
      \<and> (commandHandler h \<longrightarrow> Destroy CommandHandler \<in> set (drop 2 (acts h ?h')))
      \<and> (homieDispatcher h \<longrightarrow> SetBroadcast HomieDispatcher False \<in> set (drop 2 (acts h ?h')))"
    unfolding drop take using comp cmd hom by blast
  from main will ex(3) ex(4) q cl full show ?thesis by blast
qed

theorem C9_stop_witness:
  "commandHandler (hub_start Resolved Resolved (hub_init (no_settings\<lparr>broadcastSystemState := Some True\<rparr>) (mq_constructor True)))
   \<and> homieDispatcher (hub_start Resolved Resolved (hub_init (no_settings\<lparr>broadcastSystemState := Some True\<rparr>) (mq_constructor True)))
   \<and> homeAssistantDispatcher (hub_start Resolved Resolved (hub_init (no_settings\<lparr>broadcastSystemState := Some True\<rparr>) (mq_constructor True)))
   \<and> systemStateDispatcher (hub_start Resolved Resolved (hub_init (no_settings\<lparr>broadcastSystemState := Some True\<rparr>) (mq_constructor True)))
   \<and> truthy (protocol (hub_start Resolved Resolved (hub_init (no_settings\<lparr>broadcastSystemState := Some True\<rparr>) (mq_constructor True))))
   \<and> QueueClear \<in> set (onUnRegistered (messageQueue (hub_start Resolved Resolved (hub_init (no_settings\<lparr>broadcastSystemState := Some True\<rparr>) (mq_constructor True)))))
   \<and> snd (hub_stop (hub_start Resolved Resolved (hub_init (no_settings\<lparr>broadcastSystemState := Some True\<rparr>) (mq_constructor True)))) = None
   \<and> acts (hub_start Resolved Resolved (hub_init (no_settings\<lparr>broadcastSystemState := Some True\<rparr>) (mq_constructor True)))
        (fst (hub_stop (hub_start Resolved Resolved (hub_init (no_settings\<lparr>broadcastSystemState := Some True\<rparr>) (mq_constructor True)))))
     = [Publish \<lparr>mqttTopic = ''Homey/hub/status'', mqttMessage = ''offline'', qos = Some 1, retain = Some True\<rparr>,
        Disconnect, Destroy CommandHandler, SetBroadcast HomieDispatcher False,
        SetBroadcast SystemStateDispatcher False, Destroy SystemStateDispatcher,
        Destroy HomieDispatcher, Destroy HomeAssistantDispatcher]
   \<and> \<not> homieDispatcher (fst (hub_stop (hub_start Resolved Resolved (hub_init (no_settings\<lparr>broadcastSystemState := Some True\<rparr>) (mq_constructor True)))))
   \<and> \<not> homeAssistantDispatcher (fst (hub_stop (hub_start Resolved Resolved (hub_init (no_settings\<lparr>broadcastSystemState := Some True\<rparr>) (mq_constructor True)))))
   \<and> queue (messageQueue (fst (hub_stop (hub_start Resolved Resolved (hub_init (no_settings\<lparr>broadcastSystemState := Some True\<rparr>) (mq_constructor True)))))) = []
   \<and> \<not> registered (messageQueue (fst (hub_stop (hub_start Resolved Resolved (hub_init (no_settings\<lparr>broadcastSystemState := Some True\<rparr>) (mq_constructor True))))))
   \<and> running (messageQueue (fst (hub_stop (hub_start Resolved Resolved (hub_init (no_settings\<lparr>broadcastSystemState := Some True\<rparr>) (mq_constructor True))))))"
proof -
  let ?h = "hub_start Resolved Resolved (hub_init (no_settings\<lparr>broadcastSystemState := Some True\<rparr>) (mq_constructor True))"
  have h: "?h = \<lparr>settings = no_settings\<lparr>broadcastSystemState := Some True\<rparr>, protocol = Some ''homie3'',
      commandHandler = True, homieDispatcher = True, homeAssistantDispatcher = True,
      systemStateDispatcher = True,
      messageQueue = (mq_constructor True)\<lparr>published :=
        [\<lparr>mqttTopic = ''Homey/hub/status'', mqttMessage = ''online'', qos = Some 1, retain = Some True\<rparr>]\<rparr>,
      trace = [Connect,
          Publish \<lparr>mqttTopic = ''Homey/hub/status'', mqttMessage = ''online'', qos = Some 1, retain = Some True\<rparr>,
          Create CommandHandler, Create SystemStateDispatcher,
          Create HomieDispatcher, Create HomeAssistantDispatcher,
          Register HomeAssistantDispatcher, Register HomieDispatcher]\<rparr>"
    by (simp add: hub_defs client_connect_def client_registered_def birth_message_def replace_template
        mq_constructor_def subscribe_def Let_def)
  have facts: "commandHandler ?h" "homieDispatcher ?h" "homeAssistantDispatcher ?h"
      "systemStateDispatcher ?h" "truthy (protocol ?h)"
      "QueueClear \<in> set (onUnRegistered (messageQueue ?h))" "running (messageQueue ?h)"
      "will_message ?h = \<lparr>mqttTopic = ''Homey/hub/status'', mqttMessage = ''offline'', qos = Some 1, retain = Some True\<rparr>"
    unfolding h
    by (simp_all add: will_message_def replace_template hub_deviceId_def no_settings_def
        mq_constructor_def subscribe_def)
  from C9_stop [of ?h] facts(1-7)
  have "snd (hub_stop ?h) = None
      \<and> acts ?h (fst (hub_stop ?h))
            = [Publish (will_message ?h), Disconnect]
              @ (if commandHandler ?h then [Destroy CommandHandler] else [])
              @ (if homieDispatcher ?h then [SetBroadcast HomieDispatcher False] else [])
              @ (if homeAssistantDispatcher ?h then [SetBroadcast SystemStateDispatcher False] else [])
              @ (if systemStateDispatcher ?h then [Destroy SystemStateDispatcher] else [])
              @ (if truthy (protocol ?h)
                 then (if homieDispatcher ?h then [Destroy HomieDispatcher] else [])
                    @ (if homeAssistantDispatcher ?h then [Destroy HomeAssistantDispatcher] else [])
                 else [])
      \<and> \<not> homieDispatcher (fst (hub_stop ?h))
      \<and> \<not> homeAssistantDispatcher (fst (hub_stop ?h))
      \<and> queue (messageQueue (fst (hub_stop ?h))) = []
      \<and> \<not> registered (messageQueue (fst (hub_stop ?h)))
      \<and> running (messageQueue (fst (hub_stop ?h))) = running (messageQueue ?h)"
    by blast
  with facts show ?thesis by simp
qed

subsection \<open>Birth and last-will bypass the queue\<close>

text \<open>
  C10: \<^verbatim>\<open>_sendBirthMessage\<close> and \<^verbatim>\<open>_sendLastWillMessage\<close> are one call of the client's
  \<^verbatim>\<open>publish\<close> each, with a new Message of qos 1 and retain true. Of the queue and its
  client only the client's log of publish calls changes: the pending order, the live set,
  the running flag and all the rest are as before. Nothing is asked of the queue first,
  so the message goes out whether or not the queue is running, the client registered, or
  the topic live in or cancelled from the queue.
\<close>

theorem C10_birth_and_will_bypass_queue:
  "hub_sendBirthMessage h = client_publish (birth_message h) h
   \<and> hub_sendLastWillMessage h = client_publish (will_message h) h
   \<and> qos (birth_message h) = Some 1 \<and> retain (birth_message h) = Some True
   \<and> qos (will_message h) = Some 1 \<and> retain (will_message h) = Some True
   \<and> messageQueue (hub_sendBirthMessage h)
       = (messageQueue h)\<lparr>published := published (messageQueue h) @ [birth_message h]\<rparr>
   \<and> messageQueue (hub_sendLastWillMessage h)
       = (messageQueue h)\<lparr>published := published (messageQueue h) @ [will_message h]\<rparr>
   \<and> queue (messageQueue (hub_sendBirthMessage h)) = queue (messageQueue h)
   \<and> messages (messageQueue (hub_sendBirthMessage h)) = messages (messageQueue h)
   \<and> running (messageQueue (hub_sendBirthMessage h)) = running (messageQueue h)
   \<and> queue (messageQueue (hub_sendLastWillMessage h)) = queue (messageQueue h)
   \<and> messages (messageQueue (hub_sendLastWillMessage h)) = messages (messageQueue h)
   \<and> running (messageQueue (hub_sendLastWillMessage h)) = running (messageQueue h)"
  by (simp add: sendBirthMessage_eq sendLastWillMessage_eq client_publish_def)
    (simp add: birth_message_def will_message_def)

end
